theory Spec2Isabelle
  imports Main "HOL-Library.Word"
begin

unbundle bit_operations_syntax

type_synonym byte = "8 word"
type_synonym bytes = "byte list"

text \<open>The exceptions the script can raise; a function that may raise returns \<open>error + 'a\<close>.\<close>

datatype error = ValueError | IndexError | StructError

section \<open>Scalar helpers of the GPU dump parser\<close>

text \<open>
  Python integers are unbounded, so the command words and every value computed from
  them are modelled as \<open>int\<close>; \<open>&\<close>, \<open>|\<close>, \<open><<\<close> and \<open>>>\<close> are \<open>AND\<close>, \<open>OR\<close>,
  \<open>push_bit\<close> and \<open>drop_bit\<close> on \<open>int\<close>.
\<close>

definition sign_extend_11 :: "int \<Rightarrow> int" where
  "sign_extend_11 x =
     (let x = x AND 0x7FF
      in if x AND 0x400 \<noteq> 0 then x - 0x800 else x)"

definition expand5to8 :: "int \<Rightarrow> int" where
  "expand5to8 x = push_bit 3 x OR drop_bit 2 x"

definition gp0_param_count :: "int \<Rightarrow> int" where
  "gp0_param_count cmd =
     (if cmd \<le> 0x1F then 0
      else if 0x20 \<le> cmd \<and> cmd \<le> 0x3F then
        (let gouraud = (cmd AND 0x10 \<noteq> 0);
             quad = (cmd AND 0x08 \<noteq> 0);
             textured = (cmd AND 0x04 \<noteq> 0);
             verts = (if quad then 4 else 3)
         in if \<not> gouraud \<and> \<not> textured then verts
            else if \<not> gouraud \<and> textured then verts * 2
            else if gouraud \<and> \<not> textured then verts * 2 - 1
            else verts * 3 - 1)
      else if 0x40 \<le> cmd \<and> cmd \<le> 0x5F then
        (if cmd AND 0x08 \<noteq> 0 then - 1
         else if cmd AND 0x10 \<noteq> 0 then 3 else 2)
      else if 0x60 \<le> cmd \<and> cmd \<le> 0x7F then
        (let size_code = drop_bit 3 cmd AND 3;
             params = 1;
             params = (if size_code = 0 then params + 1 else params);
             params = (if cmd AND 0x04 \<noteq> 0 then params + 1 else params)
         in params)
      else if 0xE0 \<le> cmd \<and> cmd \<le> 0xFF then 0
      else 0)"

section \<open>Text formatting\<close>

text \<open>
  The f-string conversions the script uses: \<open>{n}\<close> (decimal) and \<open>{n:0wX}\<close> (upper-case
  hexadecimal, zero-padded to width \<open>w\<close>, the sign counted in the width).
\<close>

definition digit_char :: "int \<Rightarrow> char" where
  "digit_char d = ''0123456789ABCDEF'' ! nat d"

function dec_digits :: "int \<Rightarrow> string" where
  "dec_digits n = (if n < 10 then [digit_char n] else dec_digits (n div 10) @ [digit_char (n mod 10)])"
  by pat_completeness auto
termination
  by (relation "measure nat") auto

function hex_digits :: "int \<Rightarrow> string" where
  "hex_digits n = (if n < 16 then [digit_char n] else hex_digits (n div 16) @ [digit_char (n mod 16)])"
  by pat_completeness auto
termination
  by (relation "measure nat") auto

declare dec_digits.simps [simp del] hex_digits.simps [simp del]

definition zfill :: "nat \<Rightarrow> string \<Rightarrow> string" where
  "zfill w s = replicate (w - length s) CHR ''0'' @ s"

definition str_int :: "int \<Rightarrow> string" where
  "str_int n = (if n < 0 then CHR ''-'' # dec_digits (- n) else dec_digits n)"

definition fmt_X :: "nat \<Rightarrow> int \<Rightarrow> string" where
  "fmt_X w n = (if n < 0 then CHR ''-'' # zfill (w - 1) (hex_digits (- n))
                else zfill w (hex_digits n))"

fun join :: "string \<Rightarrow> string list \<Rightarrow> string" where
  "join sep [] = []"
| "join sep [x] = x"
| "join sep (x # y # ys) = x @ sep @ join sep (y # ys)"

section \<open>Packet reader\<close>

definition parse_header :: "bytes \<Rightarrow> error + nat" where
  "parse_header data =
     (if length data < 14 \<or> take 10 data \<noteq> map (of_nat \<circ> of_char) ''PSXGPUDUMP''
      then Inl ValueError else Inr 14)"

text \<open>\<open>struct.unpack_from("<I", data, pos)[0]\<close>: it raises when fewer than four bytes are left.\<close>

definition le32 :: "bytes \<Rightarrow> nat \<Rightarrow> int" where
  "le32 data pos = uint (data ! pos) + 2 ^ 8 * uint (data ! (pos + 1))
                   + 2 ^ 16 * uint (data ! (pos + 2)) + 2 ^ 24 * uint (data ! (pos + 3))"

definition unpack_from_I :: "bytes \<Rightarrow> nat \<Rightarrow> error + int" where
  "unpack_from_I data pos = (if pos + 4 \<le> length data then Inr (le32 data pos) else Inl StructError)"

text \<open>\<open>struct.unpack_from(f"<{len(payload)//4}I", payload, 0)\<close>: every full word of the payload.\<close>

fun unpack_words :: "bytes \<Rightarrow> int list" where
  "unpack_words (b0 # b1 # b2 # b3 # rest) = le32 [b0, b1, b2, b3] 0 # unpack_words rest"
| "unpack_words _ = []"

type_synonym packet = "int \<times> bytes"

definition get_next_packet :: "bytes \<Rightarrow> nat \<Rightarrow> error + (packet option \<times> nat)" where
  "get_next_packet data pos =
     (if pos + 4 > length data then Inr (None, pos)
      else case unpack_from_I data pos of
        Inl e \<Rightarrow> Inl e
      | Inr hdr \<Rightarrow>
          (let pos = pos + 4;
               len = hdr AND 0xFFFFFF;
               ptype = drop_bit 24 hdr AND 0xFF;
               payload_size = len * 4
           in if int pos + payload_size > int (length data) then Inr (None, pos)
              else Inr (Some (ptype, take (nat payload_size) (drop pos data)),
                        pos + nat payload_size)))"

section \<open>GP0 primitive decoder\<close>

definition GP0_ENV :: "int \<rightharpoonup> string" where
  "GP0_ENV = map_of
     [(0xE1, ''TEXPAGE''), (0xE2, ''TEXWIN''), (0xE3, ''CLIP_TL''),
      (0xE4, ''CLIP_BR''), (0xE5, ''DRAW_OFFSET''), (0xE6, ''MASK'')]"

definition parse_gp0_env :: "int \<Rightarrow> string" where
  "parse_gp0_env val =
     (let cmd = drop_bit 24 val AND 0xFF;
          name = (case GP0_ENV cmd of Some n \<Rightarrow> n | None \<Rightarrow> ''ENV_0x'' @ fmt_X 2 cmd)
      in if cmd = 0xE3 \<or> cmd = 0xE4 then
           (let x = val AND 0x3FF; y = drop_bit 10 val AND 0x1FF
            in ''  GP0 '' @ name @ '' ('' @ str_int x @ '','' @ str_int y @ '')'')
         else if cmd = 0xE5 then
           (let ox = sign_extend_11 (val AND 0x7FF);
                oy = sign_extend_11 (drop_bit 11 val AND 0x7FF)
            in ''  GP0 '' @ name @ '' ('' @ str_int ox @ '','' @ str_int oy @ '')'')
         else ''  GP0 '' @ name @ '' 0x'' @ fmt_X 8 val)"

text \<open>A decoded operation is the pair \<open>(consumed_count, line_str)\<close> of the source.\<close>

type_synonym gp0_op = "int \<times> string"
type_synonym vert = "int \<times> int \<times> int \<times> int \<times> int"

text \<open>The three colour channels of a word, each 5 bits wide and expanded to 8 bits.\<close>

definition color5 :: "int \<Rightarrow> int \<times> int \<times> int" where
  "color5 w = (expand5to8 (drop_bit 0 w AND 0x1F),
               expand5to8 (drop_bit 5 w AND 0x1F),
               expand5to8 (drop_bit 10 w AND 0x1F))"

text \<open>
  The vertex loop of a polygon, \<open>for j in range(nverts)\<close>, over the remaining values of
  \<open>j\<close>. The colour read of a Gouraud vertex comes before the bound check of the source,
  so it can raise; the bound check itself is the \<open>break\<close>.
\<close>

fun poly_verts ::
  "int list \<Rightarrow> bool \<Rightarrow> bool \<Rightarrow> nat list \<Rightarrow> nat \<Rightarrow> int \<times> int \<times> int \<Rightarrow> vert list \<Rightarrow> error + vert list"
where
  "poly_verts chunk gouraud textured [] idx col verts = Inr verts"
| "poly_verts chunk gouraud textured (j # js) idx col verts =
     (if j > 0 \<and> gouraud \<and> idx \<ge> length chunk then Inl IndexError
      else
        (let col = (if j > 0 \<and> gouraud then color5 (chunk ! idx) else col);
             idx = (if j > 0 \<and> gouraud then idx + 1 else idx)
         in if idx \<ge> length chunk then Inr verts
            else
              (let v = chunk ! idx;
                   x = sign_extend_11 (v AND 0x7FF);
                   y = sign_extend_11 (drop_bit 16 v AND 0x7FF);
                   verts = verts @ [(x, y, col)];
                   idx = idx + 1;
                   idx = (if textured then idx + 1 else idx)
               in poly_verts chunk gouraud textured js idx col verts)))"

definition fmt_vert :: "nat \<times> vert \<Rightarrow> string" where
  "fmt_vert = (\<lambda>(k, (x, y, r, g, b)).
     ''v'' @ str_int (int k) @ ''=('' @ str_int x @ '','' @ str_int y @ '')#''
     @ fmt_X 2 r @ fmt_X 2 g @ fmt_X 2 b)"

text \<open>
  Each branch of the decoder's loop body returns the operations it appends to \<open>lines\<close>
  (one, or none) and the new value of the index \<open>i\<close>.
\<close>

definition gp0_polygon :: "int list \<Rightarrow> nat \<Rightarrow> int \<Rightarrow> error + (gp0_op list \<times> nat)" where
  "gp0_polygon words i cmd =
     (let nparams = gp0_param_count cmd
      in if int i + 1 + nparams > int (length words)
         then Inr ([(1, ''  GP0 POLY 0x'' @ fmt_X 2 cmd @ '' (incomplete)'')], i + 1)
         else
           (let chunk = take (nat (1 + nparams)) (drop i words);
                quad = (cmd AND 0x08 \<noteq> 0);
                gouraud = (cmd AND 0x10 \<noteq> 0);
                textured = (cmd AND 0x04 \<noteq> 0);
                nverts = (if quad then 4 else 3);
                flat = (if \<not> gouraud then ''FLAT'' else ''GOURAUD'');
                typ = (if quad then ''QUAD'' else ''TRI'');
                name = typ @ ''_'' @ flat;
                name = (if textured then name @ ''_TEX'' else name)
            in if chunk = [] then Inl IndexError
               else case poly_verts chunk gouraud textured [0..<nverts] 1 (color5 (chunk ! 0)) [] of
                 Inl e \<Rightarrow> Inl e
               | Inr verts \<Rightarrow>
                   (let parts = join '' '' (map fmt_vert (enumerate 0 verts))
                    in Inr ([(int (length chunk), ''  GP0 '' @ name @ '' '' @ parts)],
                            i + length chunk))))"

text \<open>The inner \<open>while\<close> of a polyline: the scan for the terminator word, from \<open>j\<close>.\<close>

function polyline_scan :: "int list \<Rightarrow> int \<Rightarrow> nat \<Rightarrow> nat" where
  "polyline_scan words cmd j =
     (if j < length words then
        (if words ! j AND 0xF000F000 = 0x50005000 then j
         else polyline_scan words cmd (j + (if cmd AND 0x10 \<noteq> 0 then 2 else 1)))
      else j)"
  by pat_completeness auto
termination
  by (relation "measure (\<lambda>(words, cmd, j). length words - j)") auto

declare polyline_scan.simps [simp del]

definition gp0_line :: "int list \<Rightarrow> nat \<Rightarrow> int \<Rightarrow> error + (gp0_op list \<times> nat)" where
  "gp0_line words i cmd =
     (let nparams = gp0_param_count cmd;
          nparams = (if nparams < 0 then int (polyline_scan words cmd (i + 1)) - int i - 1
                     else nparams)
      in if int i + 1 + nparams \<le> int (length words)
         then Inr ([(1 + nparams, ''  GP0 LINE (skip '' @ str_int (nparams + 1) @ '' words)'')],
                   nat (int i + 1 + nparams))
         else Inr ([(1, ''  GP0 LINE 0x'' @ fmt_X 2 cmd @ '' (incomplete)'')], i + 1))"

definition gp0_rect :: "int list \<Rightarrow> nat \<Rightarrow> int \<Rightarrow> error + (gp0_op list \<times> nat)" where
  "gp0_rect words i cmd =
     (let nparams = gp0_param_count cmd
      in if int i + 1 + nparams \<le> int (length words)
         then Inr ([(1 + nparams, ''  GP0 RECT 0x'' @ fmt_X 2 cmd @ '' (skip)'')],
                   nat (int i + 1 + nparams))
         else Inr ([(1, ''  GP0 RECT 0x'' @ fmt_X 2 cmd @ '' (incomplete)'')], i + 1))"

definition gp0_vram_write :: "int list \<Rightarrow> nat \<Rightarrow> error + (gp0_op list \<times> nat)" where
  "gp0_vram_write words i =
     (if i + 3 \<le> length words then
        (let n = (words ! (i + 1) AND 0xFFFF) * (words ! (i + 2) AND 0xFFFF);
             nwords = 3 + (n + 1) div 2;
             c = min nwords (int (length words) - int i)
         in Inr ([(c, ''  GP0 VRAM_WRITE ~'' @ str_int n @ '' pixels'')], nat (int i + c)))
      else Inr ([], i + 1))"

text \<open>The body of the decoder's \<open>while i < len(words)\<close> loop, at an index \<open>i\<close> inside the stream.\<close>

definition gp0_step :: "int list \<Rightarrow> nat \<Rightarrow> error + (gp0_op list \<times> nat)" where
  "gp0_step words i =
     (let val = words ! i;
          cmd = drop_bit 24 val AND 0xFF
      in if GP0_ENV cmd \<noteq> None then Inr ([(1, parse_gp0_env val)], i + 1)
         else if 0x20 \<le> cmd \<and> cmd \<le> 0x3F then gp0_polygon words i cmd
         else if 0x40 \<le> cmd \<and> cmd \<le> 0x5F then gp0_line words i cmd
         else if 0x60 \<le> cmd \<and> cmd \<le> 0x7F then gp0_rect words i cmd
         else if cmd = 0xA0 then gp0_vram_write words i
         else Inr ([(1, ''  GP0 0x'' @ fmt_X 8 val @ '' (cmd=0x'' @ fmt_X 2 cmd @ '')'')], i + 1))"

subsection \<open>Progress of the loop body\<close>

text \<open>Every branch moves the index forward, which is what makes the decoder's loop end.\<close>

lemma polyline_scan_ge: "j \<le> polyline_scan words cmd j"
proof (induction words cmd j rule: polyline_scan.induct)
  case (1 words cmd j)
  show ?case
  proof (cases "j < length words \<and> words ! j AND 0xF000F000 \<noteq> 0x50005000")
    case True
    then have "polyline_scan words cmd j = polyline_scan words cmd (j + (if cmd AND 0x10 \<noteq> 0 then 2 else 1))"
      by (subst polyline_scan.simps) simp
    moreover have "j + (if cmd AND 0x10 \<noteq> 0 then 2 else 1) \<le> polyline_scan words cmd (j + (if cmd AND 0x10 \<noteq> 0 then 2 else 1))"
      using True "1.IH" by simp
    ultimately show ?thesis by simp
  next
    case False
    then have "polyline_scan words cmd j = j"
      by (subst polyline_scan.simps) auto
    then show ?thesis by simp
  qed
qed

lemma gp0_param_count_poly: "0x20 \<le> cmd \<Longrightarrow> cmd \<le> 0x3F \<Longrightarrow> 3 \<le> gp0_param_count cmd"
  by (simp add: gp0_param_count_def Let_def)

lemma gp0_param_count_rect: "0x60 \<le> cmd \<Longrightarrow> cmd \<le> 0x7F \<Longrightarrow> 1 \<le> gp0_param_count cmd"
  by (simp add: gp0_param_count_def Let_def)

lemma gp0_polygon_advance:
  "gp0_polygon words i cmd = Inr (new, i') \<Longrightarrow> i < i'"
  by (auto simp: gp0_polygon_def Let_def split: if_splits sum.splits)

lemma gp0_line_advance:
  "gp0_line words i cmd = Inr (new, i') \<Longrightarrow> i < i'"
  using polyline_scan_ge[of "i + 1" words cmd]
  by (auto simp: gp0_line_def Let_def split: if_splits)

lemma gp0_rect_advance:
  "0x60 \<le> cmd \<Longrightarrow> cmd \<le> 0x7F \<Longrightarrow> gp0_rect words i cmd = Inr (new, i') \<Longrightarrow> i < i'"
  using gp0_param_count_rect[of cmd]
  by (auto simp: gp0_rect_def Let_def split: if_splits)

lemma vram_n_nonneg: "0 \<le> ((a::int) AND 0xFFFF) * (b AND 0xFFFF)"
  by (simp add: and_nonnegative_int_iff zero_le_mult_iff)

lemma gp0_vram_write_advance:
  "gp0_vram_write words i = Inr (new, i') \<Longrightarrow> i < i'"
proof (cases "i + 3 \<le> length words")
  case True
  assume a: "gp0_vram_write words i = Inr (new, i')"
  define n where "n = (words ! (i + 1) AND 0xFFFF) * (words ! (i + 2) AND 0xFFFF)"
  have "0 \<le> n" unfolding n_def by (rule vram_n_nonneg)
  define k where "k = (n + 1) div 2"
  have d: "0 \<le> k" using \<open>0 \<le> n\<close> unfolding k_def by simp
  have "i' = nat (int i + min (3 + k) (int (length words) - int i))"
    using a True by (simp add: gp0_vram_write_def Let_def n_def k_def)
  with d True show ?thesis by linarith
next
  case False
  assume "gp0_vram_write words i = Inr (new, i')"
  with False show ?thesis by (simp add: gp0_vram_write_def)
qed

lemma gp0_step_advance: "gp0_step words i = Inr (new, i') \<Longrightarrow> i < i'"
  unfolding gp0_step_def Let_def
  by (auto split: if_splits dest: gp0_polygon_advance gp0_line_advance gp0_rect_advance gp0_vram_write_advance)

text \<open>
  The \<open>while i < len(words)\<close> loop, with the list \<open>lines\<close> it appends to; an exception
  raised inside the body leaves the loop.
\<close>

function parse_gp0_loop :: "int list \<Rightarrow> nat \<Rightarrow> gp0_op list \<Rightarrow> error + gp0_op list" where
  "parse_gp0_loop words i lines =
     (if i < length words then
        (case gp0_step words i of
           Inl e \<Rightarrow> Inl e
         | Inr (new, i') \<Rightarrow> parse_gp0_loop words i' (lines @ new))
      else Inr lines)"
  by pat_completeness auto
termination
  by (relation "measure (\<lambda>(words, i, lines). length words - i)")
     (auto dest: gp0_step_advance)

declare parse_gp0_loop.simps [simp del]

definition parse_gp0_stream :: "int list \<Rightarrow> error + gp0_op list" where
  "parse_gp0_stream words = parse_gp0_loop words 0 []"

section \<open>Report modes of \<open>main\<close>\<close>

definition PT_GPUPort0Data :: int where "PT_GPUPort0Data = 0x00"
definition PT_GPUPort1Data :: int where "PT_GPUPort1Data = 0x01"
definition PT_VSyncEvent :: int where "PT_VSyncEvent = 0x02"
definition PT_TraceBegin :: int where "PT_TraceBegin = 0x05"

lemmas PT_defs = PT_GPUPort0Data_def PT_GPUPort1Data_def PT_VSyncEvent_def PT_TraceBegin_def

text \<open>A packet read by \<open>get_next_packet\<close> ends after its header and payload, so every loop over
  the capture moves its cursor forward.\<close>

lemma get_next_packet_advance:
  "get_next_packet data pos = Inr (Some pkt, pos') \<Longrightarrow> pos < pos'"
  by (auto simp: get_next_packet_def unpack_from_I_def Let_def split: if_splits)

subsection \<open>Frame mode (an integer frame index, or no selector)\<close>

text \<open>First pass: the offsets after each TraceBegin, and after each VSync seen in the trace.\<close>

function first_pass :: "bytes \<Rightarrow> nat \<Rightarrow> bool \<Rightarrow> nat list \<Rightarrow> error + nat list" where
  "first_pass data pos in_trace frame_start_offsets =
     (if pos < length data then
        (case get_next_packet data pos of
           Inl e \<Rightarrow> Inl e
         | Inr (None, pos') \<Rightarrow> Inr frame_start_offsets
         | Inr (Some (ptype, payload), pos') \<Rightarrow>
             if ptype = PT_TraceBegin
             then first_pass data pos' True (frame_start_offsets @ [pos'])
             else if ptype = PT_VSyncEvent \<and> in_trace
             then first_pass data pos' in_trace (frame_start_offsets @ [pos'])
             else first_pass data pos' in_trace frame_start_offsets)
      else Inr frame_start_offsets)"
  by pat_completeness auto
termination
  by (relation "measure (\<lambda>(data, pos, in_trace, offs). length data - pos)")
     (auto dest: get_next_packet_advance)

declare first_pass.simps [simp del]

text \<open>What the second pass prints for a GP0 or GP1 packet of the selected frame.\<close>

definition dump_packet :: "int \<Rightarrow> bytes \<Rightarrow> error + string list" where
  "dump_packet ptype payload =
     (if ptype = PT_GPUPort0Data then
        (let words = unpack_words payload
         in if length words \<ge> 3 \<and> drop_bit 24 (words ! 0) = 0xA0 \<and> words ! 1 = 0 \<and> words ! 2 = 0
            then Inr [''  [VRAM init '' @ str_int (int (length words) - 3) @ '' words - skipped]'']
            else case parse_gp0_stream words of
                   Inl e \<Rightarrow> Inl e
                 | Inr ops \<Rightarrow> Inr (map snd ops))
      else if ptype = PT_GPUPort1Data \<and> length payload \<ge> 4 then
        (case unpack_from_I payload 0 of
           Inl e \<Rightarrow> Inl e
         | Inr w \<Rightarrow>
             (let g1 = drop_bit 24 w AND 0x3F
              in Inr [''  GP1 0x'' @ fmt_X 2 g1 @ '' 0x'' @ fmt_X 8 w]))
      else Inr [])"

text \<open>The variables of the second pass; \<open>out\<close> is what has been printed so far. (The source also
  sets \<open>in_trace\<close> in this pass, and never reads it.)\<close>

record frame_scan =
  current_frame :: int
  dumping :: bool
  pkt_count :: int
  out :: "string list"

definition frames_to_skip :: "int option \<Rightarrow> int" where
  "frames_to_skip frame_idx = (case frame_idx of Some k \<Rightarrow> k | None \<Rightarrow> 0)"

text \<open>The body of the second loop for one packet: \<open>Inr (True, s)\<close> is \<open>break\<close>, \<open>Inr (False, s)\<close>
  goes on with the next packet.\<close>

definition frame_packet ::
  "int option \<Rightarrow> int \<Rightarrow> bytes \<Rightarrow> frame_scan \<Rightarrow> error + (bool \<times> frame_scan)" where
  "frame_packet frame_idx ptype payload s =
     (if ptype = PT_TraceBegin then
        (let s = s\<lparr>current_frame := current_frame s + 1\<rparr>;
             s = (if current_frame s = frames_to_skip frame_idx
                  then s\<lparr>dumping := True,
                         out := out s @ [[CHR 0x0A] @ ''--- Frame '' @ str_int (current_frame s) @ '' ---'']\<rparr>
                  else s)
         in Inr (False, s))
      else if ptype = PT_VSyncEvent then
        (let s = (if dumping s \<and> current_frame s = frames_to_skip frame_idx
                  then s\<lparr>out := out s @ [''  VSync'']\<rparr> else s);
             s = s\<lparr>current_frame := current_frame s + 1\<rparr>
         in if current_frame s > frames_to_skip frame_idx \<and> frame_idx \<noteq> None then Inr (True, s)
            else if current_frame s = frames_to_skip frame_idx then Inr (False, s\<lparr>dumping := True\<rparr>)
            else if current_frame s > frames_to_skip frame_idx \<and> frame_idx \<noteq> None then Inr (True, s)
            else Inr (False, s))
      else if \<not> dumping s \<or> current_frame s \<noteq> frames_to_skip frame_idx then Inr (False, s)
      else
        (case dump_packet ptype payload of
           Inl e \<Rightarrow> Inl e
         | Inr ls \<Rightarrow> Inr (False, s\<lparr>pkt_count := pkt_count s + 1, out := out s @ ls\<rparr>)))"

function second_pass :: "bytes \<Rightarrow> int option \<Rightarrow> nat \<Rightarrow> frame_scan \<Rightarrow> error + frame_scan" where
  "second_pass data frame_idx pos s =
     (if pos < length data then
        (case get_next_packet data pos of
           Inl e \<Rightarrow> Inl e
         | Inr (None, pos') \<Rightarrow> Inr s
         | Inr (Some (ptype, payload), pos') \<Rightarrow>
             (case frame_packet frame_idx ptype payload s of
                Inl e \<Rightarrow> Inl e
              | Inr (True, s') \<Rightarrow> Inr s'
              | Inr (False, s') \<Rightarrow> second_pass data frame_idx pos' s'))
      else Inr s)"
  by pat_completeness auto
termination
  by (relation "measure (\<lambda>(data, frame_idx, pos, s). length data - pos)")
     (auto dest: get_next_packet_advance)

declare second_pass.simps [simp del]

text \<open>
  Frame mode as a whole: the lines printed and the exit status. \<open>frame_idx\<close> is \<open>None\<close> when
  the command line has no selector. An uncaught exception is \<open>Inl\<close>.
\<close>

definition main_frames :: "bytes \<Rightarrow> int option \<Rightarrow> error + (string list \<times> int)" where
  "main_frames data frame_idx =
     (case parse_header data of
        Inl e \<Rightarrow> Inl e
      | Inr pos \<Rightarrow>
          (case first_pass data pos False [] of
             Inl e \<Rightarrow> Inl e
           | Inr frame_start_offsets \<Rightarrow>
               if frame_start_offsets = [] then Inr ([''No frames found''], 1)
               else
                 (case parse_header data of
                    Inl e \<Rightarrow> Inl e
                  | Inr pos \<Rightarrow>
                      (case second_pass data frame_idx pos
                              \<lparr>current_frame = - 1,
                               dumping = (frame_idx = None \<or> frame_idx = Some 0),
                               pkt_count = 0, out = []\<rparr> of
                         Inl e \<Rightarrow> Inl e
                       | Inr s \<Rightarrow>
                           Inr (out s @
                                [[CHR 0x0A] @ ''Total frames: ''
                                 @ str_int (int (length frame_start_offsets))
                                 @ '', packets in frame: '' @ str_int (pkt_count s)], 0)))))"

subsection \<open>List mode and pre-trace mode\<close>

text \<open>
  \<open>--list\<close> prints one line for each packet up to the first TraceBegin (200 packets at most);
  \<open>--pre-trace\<close> (\<open>dump_content\<close>) also prints what short GP0 packets and GP1 packets hold.
  \<open>fmt_d\<close> is the conversion \<open>{n:3d}\<close>, \<open>py_strip\<close> is \<open>str.strip()\<close> on the ASCII text the decoder
  produces.
\<close>

definition fmt_d :: "nat \<Rightarrow> int \<Rightarrow> string" where
  "fmt_d w n = replicate (w - length (str_int n)) CHR '' '' @ str_int n"

definition is_space :: "char \<Rightarrow> bool" where
  "is_space c = ((of_char c :: nat) \<in> {9, 10, 11, 12, 13, 28, 29, 30, 31, 32})"

definition py_strip :: "string \<Rightarrow> string" where
  "py_strip s = rev (dropWhile is_space (rev (dropWhile is_space s)))"

definition PACKET_NAMES :: "int \<rightharpoonup> string" where
  "PACKET_NAMES = map_of
     [(0, ''GP0''), (1, ''GP1''), (2, ''VSync''), (3, ''Discard''), (4, ''Readback''),
      (5, ''TraceBegin''), (6, ''GPUVer''), (0x10, ''GameID''), (0x11, ''VideoFmt''),
      (0x12, ''Comment'')]"

text \<open>What the loop prints for packet number \<open>n\<close>, before it looks for the TraceBegin.\<close>

definition list_packet :: "bool \<Rightarrow> int \<Rightarrow> int \<Rightarrow> bytes \<Rightarrow> error + string list" where
  "list_packet dump_content n ptype payload =
     (let head = ''  '' @ fmt_d 3 n @ '' type=0x'' @ fmt_X 2 ptype @ '' ''
                 @ (case PACKET_NAMES ptype of Some name \<Rightarrow> name | None \<Rightarrow> ''?'')
                 @ '' len='' @ str_int (int (length payload) div 4);
          gp0 =
            (if dump_content \<and> ptype = 0 \<and> length payload \<ge> 4 then
               (let words = unpack_words payload
                in if length words \<le> 20 then
                     (case parse_gp0_stream words of
                        Inl e \<Rightarrow> Inl e
                      | Inr ops \<Rightarrow> Inr (map (\<lambda>op. ''       '' @ py_strip (snd op)) ops))
                   else if length words \<ge> 3 \<and> drop_bit 24 (words ! 0) = 0xA0
                           \<and> words ! 1 = 0 \<and> words ! 2 = 0
                   then Inr [''       [VRAM init '' @ str_int (int (length words) - 3) @ '' words]'']
                   else Inr [])
             else Inr []);
          gp1 =
            (if dump_content \<and> ptype = 1 \<and> length payload \<ge> 4 then
               (case unpack_from_I payload 0 of
                  Inl e \<Rightarrow> Inl e
                | Inr w \<Rightarrow> Inr [''       GP1 0x'' @ fmt_X 2 (drop_bit 24 w AND 0x3F)
                                @ '' = 0x'' @ fmt_X 8 w])
             else Inr [])
      in case gp0 of
           Inl e \<Rightarrow> Inl e
         | Inr ls0 \<Rightarrow> (case gp1 of Inl e \<Rightarrow> Inl e | Inr ls1 \<Rightarrow> Inr (head # ls0 @ ls1)))"

function list_loop :: "bytes \<Rightarrow> bool \<Rightarrow> nat \<Rightarrow> int \<Rightarrow> string list \<Rightarrow> error + string list" where
  "list_loop data dump_content pos n printed =
     (if pos < length data \<and> n < 200 then
        (case get_next_packet data pos of
           Inl e \<Rightarrow> Inl e
         | Inr (None, pos') \<Rightarrow> Inr printed
         | Inr (Some (ptype, payload), pos') \<Rightarrow>
             (case list_packet dump_content n ptype payload of
                Inl e \<Rightarrow> Inl e
              | Inr ls \<Rightarrow>
                  if ptype = 5 then Inr (printed @ ls @ [''  ^ TraceBegin''])
                  else list_loop data dump_content pos' (n + 1) (printed @ ls)))
      else Inr printed)"
  by pat_completeness auto
termination
  by (relation "measure (\<lambda>(data, dump_content, pos, n, printed). length data - pos)")
     (auto dest: get_next_packet_advance)

declare list_loop.simps [simp del]

definition main_list :: "bytes \<Rightarrow> bool \<Rightarrow> error + (string list \<times> int)" where
  "main_list data dump_content =
     (case parse_header data of
        Inl e \<Rightarrow> Inl e
      | Inr pos \<Rightarrow>
          (case parse_header data of
             Inl e \<Rightarrow> Inl e
           | Inr pos \<Rightarrow>
               (case list_loop data dump_content pos 0 [] of
                  Inl e \<Rightarrow> Inl e
                | Inr printed \<Rightarrow> Inr (printed, 0))))"

subsection \<open>VRAM mode\<close>

text \<open>The scan for the initial full-framebuffer upload: \<open>vram_words\<close>, or \<open>None\<close> when the loop
  ends without finding one.\<close>

function vram_scan :: "bytes \<Rightarrow> nat \<Rightarrow> error + int list option" where
  "vram_scan data pos =
     (if pos < length data then
        (case get_next_packet data pos of
           Inl e \<Rightarrow> Inl e
         | Inr (None, pos') \<Rightarrow> Inr None
         | Inr (Some (ptype, payload), pos') \<Rightarrow>
             if ptype = 0 \<and> length payload \<ge> 4 then
               (let words = unpack_words payload
                in if length words \<ge> 262147 \<and> drop_bit 24 (words ! 0) = 0xA0
                      \<and> words ! 1 = 0 \<and> words ! 2 = 0
                   then Inr (Some (take 262144 (drop 3 words)))
                   else vram_scan data pos')
             else vram_scan data pos')
      else Inr None)"
  by pat_completeness auto
termination
  by (relation "measure (\<lambda>(data, pos). length data - pos)")
     (auto dest: get_next_packet_advance)

declare vram_scan.simps [simp del]

definition px_to_bright :: "int \<Rightarrow> int" where
  "px_to_bright px16 =
     (let r = drop_bit 0 px16 AND 0x1F;
          g = drop_bit 5 px16 AND 0x1F;
          b = drop_bit 10 px16 AND 0x1F
      in (r * 255 div 31 + g * 255 div 31 + b * 255 div 31) div 3)"

definition vram_pixels :: "int list \<Rightarrow> int list" where
  "vram_pixels vram_words =
     concat (map (\<lambda>w. [px_to_bright (w AND 0xFFFF), px_to_bright (drop_bit 16 w AND 0xFFFF)])
                 vram_words)"

text \<open>The average brightness of the 4x4 block \<open>(bx, by)\<close>, over the pixels that exist.\<close>

definition block_avg :: "int list \<Rightarrow> nat \<Rightarrow> nat \<Rightarrow> int" where
  "block_avg pixels bx by =
     (let cells = concat (map (\<lambda>dy. map (\<lambda>dx. (bx * 4 + dx, by * 4 + dy)) [0..<4]) [0..<4]);
          hits = filter (\<lambda>(x, y). y < 512 \<and> x < 1024 \<and> y * 1024 + x < length pixels) cells;
          acc = sum_list (map (\<lambda>(x, y). pixels ! (y * 1024 + x)) hits);
          n = int (length hits)
      in if n \<noteq> 0 then acc div n else 0)"

text \<open>The first exception of a list of results, or all the values.\<close>

fun collect :: "(error + 'a) list \<Rightarrow> error + 'a list" where
  "collect [] = Inr []"
| "collect (Inl e # rs) = Inl e"
| "collect (Inr x # rs) = (case collect rs of Inl e \<Rightarrow> Inl e | Inr xs \<Rightarrow> Inr (x # xs))"

text \<open>One character of the preview: \<open>chars[min(9, avg * 10 // 256)]\<close>, where \<open>chars\<close> has nine
  characters. The brightness is never negative, so the index is not either.\<close>

definition ramp_char :: "int \<Rightarrow> error + char" where
  "ramp_char avg =
     (let chars = '' .:-=+*#@''; k = nat (min 9 (avg * 10 div 256))
      in if k < length chars then Inr (chars ! k) else Inl IndexError)"

definition ascii_rows :: "int list \<Rightarrow> error + string list" where
  "ascii_rows pixels =
     collect (map (\<lambda>by. collect (map (\<lambda>bx. ramp_char (block_avg pixels bx by))
                                       [0..<min (1024 div 4) 160]))
                  [0..<min (512 div 4) 120])"

definition to_bytes :: "string \<Rightarrow> bytes" where
  "to_bytes s = map (\<lambda>c. of_nat (of_char c)) s"

text \<open>The pixel data of the image export; \<open>vram_words\<close> holds 262144 words, two pixels each.\<close>

definition ppm_pixel :: "int list \<Rightarrow> nat \<Rightarrow> bytes" where
  "ppm_pixel vram_words idx =
     (let wi = idx div 2; sub = idx mod 2;
          w = vram_words ! wi;
          px = drop_bit (sub * 16) w AND 0xFFFF;
          r = (drop_bit 0 px AND 0x1F) * 255 div 31;
          g = (drop_bit 5 px AND 0x1F) * 255 div 31;
          b = (drop_bit 10 px AND 0x1F) * 255 div 31
      in [word_of_int r, word_of_int g, word_of_int b])"

definition ppm_file :: "int list \<Rightarrow> bytes" where
  "ppm_file vram_words =
     to_bytes (''P6'' @ [CHR 0x0A] @ str_int 1024 @ '' '' @ str_int 512 @ [CHR 0x0A]
               @ ''255'' @ [CHR 0x0A])
     @ concat (map (\<lambda>y. concat (map (\<lambda>x. ppm_pixel vram_words (y * 1024 + x)) [0..<1024]))
                   [0..<512])"

definition layout_file :: bytes where
  "layout_file = to_bytes
     (''DuckStation VRAM reference - Ridge Racer logo'' @ [CHR 0x0A]
      @ replicate 60 CHR ''='' @ [CHR 0x0A]
      @ ''Display: 1024x512 VRAM, typical view 640x480 or 320x240'' @ [CHR 0x0A]
      @ ''Pre-trace state: CLIP (0,2)-(639,479), OFFSET (0,2)'' @ [CHR 0x0A]
      @ [CHR 0x0A] @ ''Logo position (from ASCII): ~center X, rows ~20-60'' @ [CHR 0x0A]
      @ ''Our emulator: mesh rendering (no VRAM). Compare:'' @ [CHR 0x0A]
      @ ''  - Same vertices (TRI_FLAT from logs) + offset fix'' @ [CHR 0x0A]
      @ ''  - bCenterDisplay + clip center when offset=(0,0)'' @ [CHR 0x0A]
      @ ''  - Origin at display center (320, 242) for 640x480'' @ [CHR 0x0A]
      @ [CHR 0x0A] @ ''If logo is shifted/wrong: check R3000GpuComponent.cpp'' @ [CHR 0x0A]
      @ ''  vx += ClipCx when offset=0 (center-relative coords)'' @ [CHR 0x0A])"

text \<open>
  What a run leaves behind: the lines printed, the files written (name and content, in
  the order of writing) and the exit status.
\<close>

record run_result =
  stdout :: "string list"
  written :: "(string \<times> bytes) list"
  exit_status :: int

text \<open>
  VRAM mode as a whole. The two file names are computed from the path argument by library
  calls (\<open>pathlib\<close>, \<open>str.replace\<close>); the model takes them as given.
\<close>

definition main_vram :: "bytes \<Rightarrow> string \<Rightarrow> string \<Rightarrow> error + run_result" where
  "main_vram data ppm_name txt_name =
     (case parse_header data of
        Inl e \<Rightarrow> Inl e
      | Inr pos \<Rightarrow>
          (case vram_scan data pos of
             Inl e \<Rightarrow> Inl e
           | Inr found \<Rightarrow>
               if found = None \<or> found = Some []
               then Inr \<lparr>stdout = [''VRAM not found in dump''], written = [], exit_status = 1\<rparr>
               else
                 (let vram_words = the found;
                      pixels = vram_pixels vram_words
                  in case ascii_rows pixels of
                       Inl e \<Rightarrow> Inl e
                     | Inr rows \<Rightarrow>
                         (let lines = [''VRAM DuckStation '' @ str_int 1024 @ ''x'' @ str_int 512
                                       @ '' (block='' @ str_int 4
                                       @ '', display area often 0-640 x 0-480)'', []]
                                      @ rows
                          in Inr \<lparr>stdout = [join [CHR 0x0A] lines,
                                             [CHR 0x0A] @ ''PPM saved: '' @ ppm_name,
                                             ''Layout summary: '' @ txt_name],
                                   written = [(ppm_name, ppm_file vram_words),
                                              (txt_name, layout_file)],
                                   exit_status = 0\<rparr>))))"

section \<open>Reference notions for the properties\<close>

text \<open>
  The capture format has no writer in the repository. For the round trip of a packet
  header, \<open>pack_I\<close> is \<open>struct.pack("<I", h)\<close> and \<open>spec_encode_header\<close> lays the header out as
  the format description has it: the word count in the low 24 bits, the packet type in
  the high 8 bits.
\<close>

definition pack_I :: "int \<Rightarrow> bytes" where
  "pack_I h = [word_of_int h, word_of_int (drop_bit 8 h), word_of_int (drop_bit 16 h),
               word_of_int (drop_bit 24 h)]"

definition spec_encode_header :: "int \<Rightarrow> int \<Rightarrow> bytes" where
  "spec_encode_header ptype word_count = pack_I (push_bit 24 ptype OR word_count)"

text \<open>
  Well-formed (not truncated) word streams, after the operand-count policy of the decoder's
  description. \<open>spec_op_len\<close> is the number of words of the complete operation that starts at
  index \<open>i\<close>: the opcode word and its operands (\<open>gp0_param_count\<close> of them for a polygon, a
  single line or a rectangle); for a polyline the words before its terminator, which has to
  be there; for a VRAM write the three header words and one word for every two pixels;
  one word for anything else. It is \<open>None\<close> when the stream ends before the operation
  does. A stream is well-formed when it is a sequence of complete operations.
\<close>

definition spec_op_len :: "int list \<Rightarrow> nat \<Rightarrow> int option" where
  "spec_op_len words i =
     (let cmd = drop_bit 24 (words ! i) AND 0xFF;
          left = int (length words) - int i
      in if 0x20 \<le> cmd \<and> cmd \<le> 0x7F then
           (if 0x40 \<le> cmd \<and> cmd \<le> 0x5F \<and> cmd AND 0x08 \<noteq> 0 then
              (let j = polyline_scan words cmd (i + 1)
               in if j < length words then Some (int j - int i) else None)
            else if 1 + gp0_param_count cmd \<le> left then Some (1 + gp0_param_count cmd)
            else None)
         else if cmd = 0xA0 then
           (if 3 \<le> left then
              (let n = (words ! (i + 1) AND 0xFFFF) * (words ! (i + 2) AND 0xFFFF);
                   nwords = 3 + (n + 1) div 2
               in if nwords \<le> left then Some nwords else None)
            else None)
         else Some 1)"

function spec_well_formed_from :: "int list \<Rightarrow> nat \<Rightarrow> bool" where
  "spec_well_formed_from words i =
     (if i < length words then
        (case spec_op_len words i of
           None \<Rightarrow> False
         | Some n \<Rightarrow> if 1 \<le> n then spec_well_formed_from words (i + nat n) else False)
      else True)"
  by pat_completeness auto
termination
  by (relation "measure (\<lambda>(words, i). length words - i)") auto

declare spec_well_formed_from.simps [simp del]

definition spec_well_formed :: "int list \<Rightarrow> bool" where
  "spec_well_formed words = spec_well_formed_from words 0"

text \<open>
  The packets of a capture, as the loops of \<open>main\<close> meet them from a cursor on: up to the
  end of the buffer or to the first "no more packets".
\<close>

function read_packets :: "bytes \<Rightarrow> nat \<Rightarrow> packet list" where
  "read_packets data pos =
     (if pos < length data then
        (case get_next_packet data pos of
           Inr (Some pkt, pos') \<Rightarrow> pkt # read_packets data pos'
         | _ \<Rightarrow> [])
      else [])"
  by pat_completeness auto
termination
  by (relation "measure (\<lambda>(data, pos). length data - pos)")
     (auto dest: get_next_packet_advance)

declare read_packets.simps [simp del]

text \<open>
  The full-framebuffer upload the VRAM extractor looks for: a GP0 packet whose word stream
  begins with opcode 0xA0 and two zero origin words, and has at least 3 + 262144 words.
\<close>

definition is_vram_preload :: "packet \<Rightarrow> bool" where
  "is_vram_preload pkt =
     (case pkt of (ptype, payload) \<Rightarrow>
        ptype = PT_GPUPort0Data \<and>
        (let words = unpack_words payload
         in length words \<ge> 3 + 262144 \<and> drop_bit 24 (words ! 0) = 0xA0
            \<and> words ! 1 = 0 \<and> words ! 2 = 0))"

text \<open>
  Synthetic captures: a packet is written as its header and its payload, a stream as its
  packets one after the other. A packet can be written when its type fits 8 bits and its
  payload is a whole number of words that fits 24 bits.
\<close>

definition encode_packet :: "packet \<Rightarrow> bytes" where
  "encode_packet pkt =
     (case pkt of (ptype, payload) \<Rightarrow>
        spec_encode_header ptype (int (length payload) div 4) @ payload)"

definition encode_stream :: "packet list \<Rightarrow> bytes" where
  "encode_stream pkts = concat (map encode_packet pkts)"

definition valid_packet :: "packet \<Rightarrow> bool" where
  "valid_packet pkt =
     (case pkt of (ptype, payload) \<Rightarrow>
        0 \<le> ptype \<and> ptype < 2 ^ 8 \<and> length payload mod 4 = 0 \<and> int (length payload) div 4 < 2 ^ 24)"

text \<open>
  The two passes of frame mode read over the packets themselves instead of their bytes:
  \<open>index_of\<close> is the frame index of a packet list that starts at offset \<open>pos\<close>, \<open>scan_of\<close> runs
  the body of the second loop over a packet list. On a synthetic capture they are what the
  passes compute (see \<open>first_pass_encode_stream\<close> and \<open>second_pass_encode_stream\<close>).
\<close>

fun index_of :: "packet list \<Rightarrow> nat \<Rightarrow> bool \<Rightarrow> nat list \<Rightarrow> nat list" where
  "index_of [] pos in_trace offs = offs"
| "index_of (p # ps) pos in_trace offs =
     (let pos' = pos + length (encode_packet p)
      in if fst p = PT_TraceBegin then index_of ps pos' True (offs @ [pos'])
         else if fst p = PT_VSyncEvent \<and> in_trace then index_of ps pos' in_trace (offs @ [pos'])
         else index_of ps pos' in_trace offs)"

fun scan_of :: "int option \<Rightarrow> packet list \<Rightarrow> frame_scan \<Rightarrow> error + frame_scan" where
  "scan_of frame_idx [] s = Inr s"
| "scan_of frame_idx (p # ps) s =
     (case frame_packet frame_idx (fst p) (snd p) s of
        Inl e \<Rightarrow> Inl e
      | Inr (True, s') \<Rightarrow> Inr s'
      | Inr (False, s') \<Rightarrow> scan_of frame_idx ps s')"

text \<open>What the second pass prints for a list of GP0 and GP1 packets of the selected frame.\<close>

definition dump_packets :: "packet list \<Rightarrow> error + string list" where
  "dump_packets pkts =
     (case collect (map (\<lambda>p. dump_packet (fst p) (snd p)) pkts) of
        Inl e \<Rightarrow> Inl e
      | Inr ls \<Rightarrow> Inr (concat ls))"

section \<open>Facts about the packet reader\<close>

lemma uint_byte: "uint (word_of_int h :: byte) = h mod 256"
  by (simp add: uint_word_of_int)

lemma le_bytes_sum:
  assumes "0 \<le> h" "h < 2 ^ 32"
  shows "h mod 256 + 2 ^ 8 * (h div 2 ^ 8 mod 256) + 2 ^ 16 * (h div 2 ^ 16 mod 256)
         + 2 ^ 24 * (h div 2 ^ 24 mod 256) = (h::int)"
proof -
  define h1 where "h1 = h div 256"
  define h2 where "h2 = h1 div 256"
  define h3 where "h3 = h2 div 256"
  have e0: "h = 256 * h1 + h mod 256" unfolding h1_def by simp
  have e1: "h1 = 256 * h2 + h1 mod 256" unfolding h2_def by simp
  have e2: "h2 = 256 * h3 + h2 mod 256" unfolding h3_def by simp
  have d1: "h div 2 ^ 8 = h1" unfolding h1_def by simp
  have d2: "h div 2 ^ 16 = h2" unfolding h2_def h1_def by (simp add: zdiv_zmult2_eq)
  have d3: "h div 2 ^ 24 = h3" unfolding h3_def h2_def h1_def by (simp add: zdiv_zmult2_eq)
  have "h3 < 256" using assms(2) unfolding d3[symmetric] by (simp add: div_less_iff_less_mult)
  moreover have "0 \<le> h3" using assms(1) unfolding d3[symmetric] by (simp add: pos_imp_zdiv_nonneg_iff)
  ultimately have m3: "h3 mod 256 = h3" by simp
  have "h mod 256 + 256 * (h1 mod 256) + 65536 * (h2 mod 256) + 16777216 * h3 = h"
    using e0 e1 e2 by linarith
  then show ?thesis unfolding d1 d2 d3 m3 by simp
qed

lemma le32_bytes: "le32 [word_of_int a, word_of_int b, word_of_int c, word_of_int d] 0
   = a mod 256 + 2 ^ 8 * (b mod 256) + 2 ^ 16 * (c mod 256) + 2 ^ 24 * (d mod 256)"
  unfolding le32_def by (simp add: uint_byte)

lemma le32_pack_I: "0 \<le> h \<Longrightarrow> h < 2 ^ 32 \<Longrightarrow> le32 (pack_I h) 0 = h"
  unfolding pack_I_def le32_bytes drop_bit_eq_div by (rule le_bytes_sum)

lemma length_pack_I [simp]: "length (pack_I h) = 4"
  by (simp add: pack_I_def)

lemma le32_append:
  "le32 (pre @ [b0, b1, b2, b3] @ rest) (length pre) = le32 [b0, b1, b2, b3] 0"
  by (simp add: le32_def nth_append)

lemma and_FFFFFF: "(x::int) AND 0xFFFFFF = take_bit 24 x"
  using take_bit_eq_mask[of 24 x] by (simp add: mask_eq_exp_minus_1)

lemma and_FF: "(x::int) AND 0xFF = take_bit 8 x"
  using take_bit_eq_mask[of 8 x] by (simp add: mask_eq_exp_minus_1)

lemma hdr_fields:
  assumes "0 \<le> t" "t < 2 ^ 8" "0 \<le> wc" "wc < 2 ^ 24"
  shows "(push_bit 24 t OR wc) AND 0xFFFFFF = (wc::int)"
    and "drop_bit 24 (push_bit 24 t OR wc) AND 0xFF = t"
    and "0 \<le> push_bit 24 t OR wc"
    and "push_bit 24 t OR wc < 2 ^ 32"
proof -
  have w: "take_bit 24 wc = wc" using assms by (simp add: take_bit_int_eq_self)
  have t: "take_bit 8 t = t" using assms by (simp add: take_bit_int_eq_self)
  show "(push_bit 24 t OR wc) AND 0xFFFFFF = wc"
    unfolding and_FFFFFF by (simp add: take_bit_push_bit w)
  have "drop_bit 24 wc = 0" using assms by (simp add: drop_bit_eq_div)
  then show "drop_bit 24 (push_bit 24 t OR wc) AND 0xFF = t"
    unfolding and_FF by (simp add: drop_bit_push_bit t)
  show "0 \<le> push_bit 24 t OR wc" using assms by simp
  have "push_bit 24 t < 2 ^ 32" using assms by (simp add: push_bit_eq_mult)
  moreover have "wc < 2 ^ 32" using assms by simp
  ultimately show "push_bit 24 t OR wc < 2 ^ 32"
    using assms by (intro OR_upper) simp_all
qed

lemma get_next_packet_packed:
  assumes "0 \<le> hdr" "hdr < 2 ^ 32" "int (length payload) = 4 * (hdr AND 0xFFFFFF)"
  shows "get_next_packet (pre @ pack_I hdr @ payload @ rest) (length pre)
         = Inr (Some (drop_bit 24 hdr AND 0xFF, payload), length pre + 4 + length payload)"
proof -
  let ?data = "pre @ pack_I hdr @ payload @ rest"
  have "le32 ?data (length pre) = le32 (pack_I hdr) 0"
    unfolding pack_I_def by (rule le32_append)
  then have h: "le32 ?data (length pre) = hdr"
    using assms by (simp add: le32_pack_I)
  have n: "(hdr AND 0xFFFFFF) * 4 = int (length payload)" using assms(3) by simp
  show ?thesis
    by (simp add: get_next_packet_def unpack_from_I_def h Let_def n)
qed

lemma get_next_packet_encoded:
  assumes "0 \<le> t" "t < 2 ^ 8" "0 \<le> wc" "wc < 2 ^ 24" "int (length payload) = 4 * wc"
  shows "get_next_packet (pre @ spec_encode_header t wc @ payload @ rest) (length pre)
         = Inr (Some (t, payload), length pre + 4 + length payload)"
  unfolding spec_encode_header_def
  using get_next_packet_packed[of "push_bit 24 t OR wc" payload pre rest] hdr_fields[OF assms(1-4)] assms(5)
  by simp

section \<open>Facts about the GP0 decoder\<close>

lemma upt_3: "[0..<3] = [0, 1, 2]" by (simp add: upt_rec)
lemma upt_4: "[0..<4] = [0, 1, 2, 3]" by (simp add: upt_rec)

lemma poly_verts_ok:
  assumes "int (length chunk) = 1 + (let verts = (if quad then 4 else 3)
      in if gouraud then (if textured then 3 * verts - 1 else 2 * verts - 1)
         else (if textured then 2 * verts else verts))"
  shows "\<exists>vs. poly_verts chunk gouraud textured [0..<(if quad then 4 else 3)] 1 col [] = Inr vs"
  using assms
  by (cases quad; cases gouraud; cases textured) (simp_all add: upt_3 upt_4 Let_def)

lemma gp0_param_count_polygon_bits:
  "0x20 \<le> cmd \<Longrightarrow> cmd \<le> 0x3F \<Longrightarrow>
   gp0_param_count cmd =
     (let verts = (if cmd AND 0x08 \<noteq> 0 then 4 else 3)
      in if cmd AND 0x10 \<noteq> 0 then (if cmd AND 0x04 \<noteq> 0 then 3 * verts - 1 else 2 * verts - 1)
         else (if cmd AND 0x04 \<noteq> 0 then 2 * verts else verts))"
  by (simp add: gp0_param_count_def Let_def)

lemma gp0_polygon_incomplete:
  "int i + 1 + gp0_param_count cmd > int (length words) \<Longrightarrow>
   gp0_polygon words i cmd = Inr ([(1, ''  GP0 POLY 0x'' @ fmt_X 2 cmd @ '' (incomplete)'')], i + 1)"
  by (simp add: gp0_polygon_def)

lemma gp0_polygon_complete:
  assumes "0x20 \<le> cmd" "cmd \<le> 0x3F" "int i + 1 + gp0_param_count cmd \<le> int (length words)"
  shows "\<exists>line. gp0_polygon words i cmd
           = Inr ([(1 + gp0_param_count cmd, line)], nat (int i + 1 + gp0_param_count cmd))"
proof -
  define chunk where "chunk = take (nat (1 + gp0_param_count cmd)) (drop i words)"
  have p: "3 \<le> gp0_param_count cmd" using assms(1,2) by (rule gp0_param_count_poly)
  have len: "int (length chunk) = 1 + gp0_param_count cmd"
    using assms(3) p unfolding chunk_def by simp
  then have ne: "chunk \<noteq> []" using p by auto
  have "int (length chunk) = 1 + (let verts = (if cmd AND 0x08 \<noteq> 0 then 4 else 3)
      in if cmd AND 0x10 \<noteq> 0 then (if cmd AND 0x04 \<noteq> 0 then 3 * verts - 1 else 2 * verts - 1)
         else (if cmd AND 0x04 \<noteq> 0 then 2 * verts else verts))"
    using len gp0_param_count_polygon_bits[OF assms(1,2)] by simp
  from poly_verts_ok[OF this, of "color5 (chunk ! 0)"]
  obtain vs where vs: "poly_verts chunk (cmd AND 0x10 \<noteq> 0) (cmd AND 0x04 \<noteq> 0)
       [0..<(if cmd AND 0x08 \<noteq> 0 then 4 else 3)] 1 (color5 (chunk ! 0)) [] = Inr vs"
    by blast
  have l2: "i + length chunk = nat (int i + 1 + gp0_param_count cmd)" using len by simp
  show ?thesis
    using assms(3) ne vs len l2
    unfolding gp0_polygon_def Let_def chunk_def[symmetric]
    by (simp del: poly_verts.simps)
qed

lemma gp0_param_count_line:
  "0x40 \<le> cmd \<Longrightarrow> cmd \<le> 0x5F \<Longrightarrow>
   gp0_param_count cmd = (if cmd AND 0x08 \<noteq> 0 then - 1 else if cmd AND 0x10 \<noteq> 0 then 3 else 2)"
  by (simp add: gp0_param_count_def)

lemma gp0_line_shape:
  assumes "0x40 \<le> cmd" "cmd \<le> 0x5F" "i < length words"
  shows "\<exists>c line. gp0_line words i cmd = Inr ([(c, line)], nat (int i + c)) \<and> 1 \<le> c
           \<and> int i + c \<le> int (length words)"
proof -
  have "i + 1 \<le> polyline_scan words cmd (i + 1)" by (rule polyline_scan_ge)
  then show ?thesis
    using assms(3) unfolding gp0_line_def Let_def gp0_param_count_line[OF assms(1,2)] by auto
qed

lemma gp0_rect_shape:
  assumes "0x60 \<le> cmd" "cmd \<le> 0x7F" "i < length words"
  shows "\<exists>c line. gp0_rect words i cmd = Inr ([(c, line)], nat (int i + c)) \<and> 1 \<le> c
           \<and> int i + c \<le> int (length words)"
  using gp0_param_count_rect[OF assms(1,2)] assms(3) unfolding gp0_rect_def Let_def by auto

lemma gp0_polygon_shape:
  assumes "0x20 \<le> cmd" "cmd \<le> 0x3F" "i < length words"
  shows "\<exists>c line. gp0_polygon words i cmd = Inr ([(c, line)], nat (int i + c)) \<and> 1 \<le> c
           \<and> int i + c \<le> int (length words)"
proof (cases "int i + 1 + gp0_param_count cmd \<le> int (length words)")
  case True
  from gp0_polygon_complete[OF assms(1,2) True] obtain line where
    "gp0_polygon words i cmd = Inr ([(1 + gp0_param_count cmd, line)], nat (int i + 1 + gp0_param_count cmd))"
    by blast
  moreover have "3 \<le> gp0_param_count cmd" using assms(1,2) by (rule gp0_param_count_poly)
  ultimately show ?thesis using True by (intro exI[of _ "1 + gp0_param_count cmd"] exI[of _ line]) (simp add: add.assoc)
next
  case False
  then have "gp0_polygon words i cmd = Inr ([(1, ''  GP0 POLY 0x'' @ fmt_X 2 cmd @ '' (incomplete)'')], i + 1)"
    by (intro gp0_polygon_incomplete) simp
  then show ?thesis using assms(3)
    by (intro exI[of _ 1] exI[of _ "''  GP0 POLY 0x'' @ fmt_X 2 cmd @ '' (incomplete)''"]) (simp add: nat_add_distrib)
qed

lemma gp0_vram_write_shape:
  assumes "i + 3 \<le> length words"
  shows "\<exists>c line. gp0_vram_write words i = Inr ([(c, line)], nat (int i + c)) \<and> 1 \<le> c
           \<and> int i + c \<le> int (length words)"
proof -
  define n where "n = (words ! (i + 1) AND 0xFFFF) * (words ! (i + 2) AND 0xFFFF)"
  define k where "k = (n + 1) div 2"
  have "0 \<le> n" unfolding n_def by (rule vram_n_nonneg)
  then have k: "0 \<le> k" unfolding k_def by simp
  define c where "c = min (3 + k) (int (length words) - int i)"
  have "gp0_vram_write words i = Inr ([(c, ''  GP0 VRAM_WRITE ~'' @ str_int n @ '' pixels'')], nat (int i + c))"
    using assms by (simp add: gp0_vram_write_def Let_def n_def k_def c_def)
  moreover have "1 \<le> c" "int i + c \<le> int (length words)" using assms k unfolding c_def by auto
  ultimately show ?thesis by blast
qed

lemma GP0_ENV_dom: "(GP0_ENV cmd \<noteq> None) = (cmd \<in> {0xE1, 0xE2, 0xE3, 0xE4, 0xE5, 0xE6})"
  by (simp add: GP0_ENV_def)

lemma GP0_ENV_classified: "0x20 \<le> cmd \<Longrightarrow> cmd \<le> 0x7F \<Longrightarrow> GP0_ENV cmd = None"
  using GP0_ENV_dom[of cmd] by auto

lemma gp0_step_shape:
  assumes "i < length words"
  shows "\<exists>new i'. gp0_step words i = Inr (new, i') \<and> i < i' \<and> i' \<le> length words \<and>
           ((\<exists>c line. new = [(c, line)] \<and> 1 \<le> c \<and> int i' = int i + c) \<or>
            (new = [] \<and> i' = i + 1 \<and> drop_bit 24 (words ! i) AND 0xFF = 0xA0
               \<and> length words < i + 3))"
proof -
  define cmd where "cmd = drop_bit 24 (words ! i) AND 0xFF"
  have branch: "\<exists>new i'. r = Inr (new, i') \<and> i < i' \<and> i' \<le> length words \<and>
           ((\<exists>c line. new = [(c, line)] \<and> 1 \<le> c \<and> int i' = int i + c) \<or>
            (new = [] \<and> i' = i + 1 \<and> cmd = 0xA0 \<and> length words < i + 3))"
    if "\<exists>c line. r = Inr ([(c, line)], nat (int i + c)) \<and> 1 \<le> c \<and> int i + c \<le> int (length words)"
    for r :: "error + (gp0_op list \<times> nat)"
  proof -
    from that obtain c line where r: "r = Inr ([(c, line)], nat (int i + c))" and c: "1 \<le> c"
      "int i + c \<le> int (length words)" by blast
    show ?thesis
      by (intro exI[of _ "[(c, line)]"] exI[of _ "nat (int i + c)"]) (use r c in auto)
  qed
  consider (env) "GP0_ENV cmd \<noteq> None"
    | (poly) "GP0_ENV cmd = None" "0x20 \<le> cmd" "cmd \<le> 0x3F"
    | (line) "GP0_ENV cmd = None" "0x40 \<le> cmd" "cmd \<le> 0x5F"
    | (rect) "GP0_ENV cmd = None" "0x60 \<le> cmd" "cmd \<le> 0x7F"
    | (vram) "GP0_ENV cmd = None" "cmd = 0xA0" "i + 3 \<le> length words"
    | (short) "GP0_ENV cmd = None" "cmd = 0xA0" "length words < i + 3"
    | (other) "GP0_ENV cmd = None" "\<not> (0x20 \<le> cmd \<and> cmd \<le> 0x7F)" "cmd \<noteq> 0xA0"
    by fastforce
  then have "\<exists>new i'. gp0_step words i = Inr (new, i') \<and> i < i' \<and> i' \<le> length words \<and>
           ((\<exists>c line. new = [(c, line)] \<and> 1 \<le> c \<and> int i' = int i + c) \<or>
            (new = [] \<and> i' = i + 1 \<and> cmd = 0xA0 \<and> length words < i + 3))"
  proof cases
    case env
    then have "gp0_step words i = Inr ([(1, parse_gp0_env (words ! i))], i + 1)"
      by (simp add: gp0_step_def cmd_def Let_def)
    then show ?thesis using assms by simp
  next
    case poly
    then have "gp0_step words i = gp0_polygon words i cmd"
      by (simp add: gp0_step_def cmd_def Let_def)
    then show ?thesis using branch[OF gp0_polygon_shape[OF poly(2,3) assms]] by simp
  next
    case line
    then have "gp0_step words i = gp0_line words i cmd"
      by (simp add: gp0_step_def cmd_def Let_def)
    then show ?thesis using branch[OF gp0_line_shape[OF line(2,3) assms]] by simp
  next
    case rect
    then have "gp0_step words i = gp0_rect words i cmd"
      by (simp add: gp0_step_def cmd_def Let_def)
    then show ?thesis using branch[OF gp0_rect_shape[OF rect(2,3) assms]] by simp
  next
    case vram
    then have "gp0_step words i = gp0_vram_write words i"
      by (simp add: gp0_step_def cmd_def Let_def)
    then show ?thesis using branch[OF gp0_vram_write_shape[OF vram(3)]] by simp
  next
    case short
    then have "gp0_step words i = Inr ([], i + 1)"
      by (simp add: gp0_step_def cmd_def gp0_vram_write_def Let_def)
    then show ?thesis using short assms by simp
  next
    case other
    then have "gp0_step words i = Inr ([(1, ''  GP0 0x'' @ fmt_X 8 (words ! i) @ '' (cmd=0x'' @ fmt_X 2 cmd @ '')'')], i + 1)"
      by (auto simp: gp0_step_def cmd_def Let_def)
    then show ?thesis using assms by simp
  qed
  then show ?thesis unfolding cmd_def .
qed

lemma gp0_step_complete:
  assumes "i < length words" "spec_op_len words i = Some n"
  shows "\<exists>line. gp0_step words i = Inr ([(n, line)], i + nat n)"
proof -
  define cmd where "cmd = drop_bit 24 (words ! i) AND 0xFF"
  consider (env) "GP0_ENV cmd \<noteq> None"
    | (poly) "GP0_ENV cmd = None" "0x20 \<le> cmd" "cmd \<le> 0x3F"
    | (line) "GP0_ENV cmd = None" "0x40 \<le> cmd" "cmd \<le> 0x5F"
    | (rect) "GP0_ENV cmd = None" "0x60 \<le> cmd" "cmd \<le> 0x7F"
    | (vram) "GP0_ENV cmd = None" "cmd = 0xA0"
    | (other) "GP0_ENV cmd = None" "\<not> (0x20 \<le> cmd \<and> cmd \<le> 0x7F)" "cmd \<noteq> 0xA0"
    by fastforce
  then show ?thesis
  proof cases
    case env
    then have "cmd \<in> {0xE1, 0xE2, 0xE3, 0xE4, 0xE5, 0xE6}" using GP0_ENV_dom[of cmd] by blast
    then have "n = 1" using assms(2) unfolding spec_op_len_def cmd_def[symmetric] by auto
    then show ?thesis using env by (simp add: gp0_step_def cmd_def Let_def)
  next
    case poly
    then have s: "gp0_step words i = gp0_polygon words i cmd"
      by (simp add: gp0_step_def cmd_def Let_def)
    from poly assms(2) have n: "n = 1 + gp0_param_count cmd"
      "int i + 1 + gp0_param_count cmd \<le> int (length words)"
      unfolding spec_op_len_def cmd_def[symmetric] by (auto simp: Let_def split: if_splits)
    have "3 \<le> gp0_param_count cmd" using poly(2,3) by (rule gp0_param_count_poly)
    then have "nat (int i + 1 + gp0_param_count cmd) = i + nat n" using n by simp
    then show ?thesis using gp0_polygon_complete[OF poly(2,3) n(2)] s n(1) by simp
  next
    case line
    then have s: "gp0_step words i = gp0_line words i cmd"
      by (simp add: gp0_step_def cmd_def Let_def)
    have ge: "i + 1 \<le> polyline_scan words cmd (i + 1)" by (rule polyline_scan_ge)
    show ?thesis using line assms ge
      unfolding s gp0_line_def spec_op_len_def cmd_def[symmetric] Let_def gp0_param_count_line[OF line(2,3)]
      by (auto split: if_splits simp: nat_add_distrib)
  next
    case rect
    then have s: "gp0_step words i = gp0_rect words i cmd"
      by (simp add: gp0_step_def cmd_def Let_def)
    have "1 \<le> gp0_param_count cmd" using rect(2,3) by (rule gp0_param_count_rect)
    then show ?thesis using rect assms
      unfolding s gp0_rect_def spec_op_len_def cmd_def[symmetric] Let_def
      by (auto split: if_splits simp: nat_add_distrib)
  next
    case vram
    then have s: "gp0_step words i = gp0_vram_write words i"
      by (simp add: gp0_step_def cmd_def Let_def)
    define k where "k = ((words ! (i + 1) AND 0xFFFF) * (words ! (i + 2) AND 0xFFFF) + 1) div 2"
    have "0 \<le> (words ! (i + 1) AND 0xFFFF) * (words ! (i + 2) AND 0xFFFF)" by (rule vram_n_nonneg)
    then have k: "0 \<le> k" unfolding k_def by simp
    from vram assms(2) have n: "3 \<le> int (length words) - int i" "n = 3 + k"
      "3 + k \<le> int (length words) - int i"
      unfolding spec_op_len_def cmd_def[symmetric] k_def by (auto simp: Let_def split: if_splits)
    have "nat (int i + (3 + k)) = i + nat (3 + k)" using k by (simp add: nat_add_distrib)
    then show ?thesis using n k
      unfolding s gp0_vram_write_def Let_def k_def[symmetric] by (simp add: min_def)
  next
    case other
    then have "n = 1" using assms(2) unfolding spec_op_len_def cmd_def[symmetric] by (auto split: if_splits)
    then show ?thesis using other by (auto simp: gp0_step_def cmd_def Let_def)
  qed
qed

lemma parse_gp0_loop_ops:
  assumes "i \<le> length words"
  shows "\<exists>ops. parse_gp0_loop words i lines = Inr (lines @ ops) \<and> (\<forall>op\<in>set ops. 1 \<le> fst op) \<and>
           sum_list (map fst ops) \<le> int (length words) - int i \<and>
           (spec_well_formed_from words i \<longrightarrow> sum_list (map fst ops) = int (length words) - int i)"
  using assms
proof (induction words i lines rule: parse_gp0_loop.induct)
  case (1 words i lines)
  show ?case
  proof (cases "i < length words")
    case False
    with "1.prems" have "parse_gp0_loop words i lines = Inr (lines @ [])"
      by (simp add: parse_gp0_loop.simps)
    moreover have "int (length words) - int i = 0" using False "1.prems" by simp
    ultimately show ?thesis by (intro exI[of _ "[]"]) simp
  next
    case True
    from gp0_step_shape[OF True] obtain new i' where
      st: "gp0_step words i = Inr (new, i')" and adv: "i < i'" "i' \<le> length words" and
      sh: "(\<exists>c line. new = [(c, line)] \<and> 1 \<le> c \<and> int i' = int i + c) \<or>
           (new = [] \<and> i' = i + 1 \<and> drop_bit 24 (words ! i) AND 0xFF = 0xA0 \<and> length words < i + 3)"
      by blast
    from "1.IH"[OF True st refl adv(2)] obtain ops where
      ops: "parse_gp0_loop words i' (lines @ new) = Inr ((lines @ new) @ ops)"
        "\<forall>op\<in>set ops. 1 \<le> fst op"
        "sum_list (map fst ops) \<le> int (length words) - int i'"
        "spec_well_formed_from words i' \<longrightarrow> sum_list (map fst ops) = int (length words) - int i'"
      by blast
    have run: "parse_gp0_loop words i lines = Inr (lines @ (new @ ops))"
      using True st ops(1) by (subst parse_gp0_loop.simps) simp
    have pos: "\<forall>op\<in>set (new @ ops). 1 \<le> fst op" using sh ops(2) by auto
    have le: "sum_list (map fst (new @ ops)) \<le> int (length words) - int i"
      using sh ops(3) adv by auto
    have wf: "sum_list (map fst (new @ ops)) = int (length words) - int i"
      if w: "spec_well_formed_from words i"
    proof -
      from w True obtain n where n: "spec_op_len words i = Some n" "1 \<le> n"
        "spec_well_formed_from words (i + nat n)"
        by (subst (asm) spec_well_formed_from.simps) (auto split: option.splits if_splits)
      from gp0_step_complete[OF True n(1)] st obtain line where
        "new = [(n, line)]" "i' = i + nat n" by auto
      then show ?thesis using ops(4) n by simp
    qed
    show ?thesis using run pos le wf by blast
  qed
qed




lemma parse_gp0_loop_step:
  "i < length words \<Longrightarrow> gp0_step words i = Inr (new, i') \<Longrightarrow>
   parse_gp0_loop words i lines = parse_gp0_loop words i' (lines @ new)"
  by (subst parse_gp0_loop.simps) simp

lemma parse_gp0_stream_total: "\<exists>ops. parse_gp0_stream words = Inr ops"
  using parse_gp0_loop_ops[of 0 words "[]"] unfolding parse_gp0_stream_def by auto

text \<open>
  The one stream position where the decoder moves on without an operation: a VRAM write
  opcode with fewer than two words after it. Nothing is appended for it, so the consumed
  word counts of such a stream add up to less than its length.
\<close>

lemma vram_header_cut_emits_nothing:
  "parse_gp0_stream [0xA0000000] = Inr [] \<and>
   parse_gp0_stream [0x02000000, 0xA0000000, 7] = Inr [(1, ''  GP0 0x02000000 (cmd=0x02)''),
                                                       (1, ''  GP0 0x00000007 (cmd=0x00)'')]"
  by code_simp

section \<open>Facts about the sign extension\<close>

lemma and_7FF: "(x::int) AND 0x7FF = x mod 2048"
  using take_bit_eq_mask[of 11 x] by (simp add: take_bit_eq_mod mask_eq_exp_minus_1)

lemma and_400_bit: "((x::int) AND 0x400 \<noteq> 0) = bit x 10"
  using bit_iff_and_push_bit_not_eq_0[of x 10] by simp

lemma div_1024_hi: "1024 \<le> x \<Longrightarrow> x < 2048 \<Longrightarrow> (x::int) div 1024 = 1"
proof -
  assume a: "1024 \<le> x" "x < 2048"
  have "x div 1024 = ((x - 1024) + 1024) div 1024" by simp
  also have "\<dots> = (x - 1024) div 1024 + 1" by (rule div_add_self2) simp
  also have "(x - 1024) div 1024 = 0" using a by (intro div_pos_pos_trivial) simp_all
  finally show ?thesis by simp
qed

lemma and_400: "0 \<le> x \<Longrightarrow> x < 2048 \<Longrightarrow> ((x::int) AND 0x400 \<noteq> 0) = (1024 \<le> x)"
  unfolding and_400_bit bit_iff_odd
  using div_1024_hi[of x] div_pos_pos_trivial[of x 1024] by (cases "1024 \<le> x") simp_all

section \<open>Facts about the report modes\<close>

lemma get_next_packet_no_error: "get_next_packet data pos \<noteq> Inl e"
  by (auto simp: get_next_packet_def unpack_from_I_def Let_def)

lemma vram_scan_none:
  "\<forall>pkt\<in>set (read_packets data pos). \<not> is_vram_preload pkt \<Longrightarrow> vram_scan data pos = Inr None"
proof (induction data pos rule: vram_scan.induct)
  case (1 data pos)
  show ?case
  proof (cases "pos < length data")
    case False
    then show ?thesis by (subst vram_scan.simps) simp
  next
    case True
    show ?thesis
    proof (cases "get_next_packet data pos")
      case (Inl e)
      then show ?thesis using get_next_packet_no_error by blast
    next
      case (Inr r)
      obtain pk pos' where r: "r = (pk, pos')" by (cases r)
      show ?thesis
      proof (cases pk)
        case None
        then show ?thesis using True Inr r by (subst vram_scan.simps) simp
      next
        case (Some pkt)
        obtain ptype payload where pkt: "pkt = (ptype, payload)" by (cases pkt)
        have g: "get_next_packet data pos = Inr (Some (ptype, payload), pos')"
          using Inr r Some pkt by simp
        have rp: "read_packets data pos = (ptype, payload) # read_packets data pos'"
          using True g by (subst read_packets.simps) simp
        then have no: "\<not> is_vram_preload (ptype, payload)"
          and rest: "\<forall>pkt\<in>set (read_packets data pos'). \<not> is_vram_preload pkt"
          using "1.prems" by simp_all
        have nomatch: "\<not> (ptype = 0 \<and> length (unpack_words payload) \<ge> 262147
              \<and> drop_bit 24 (unpack_words payload ! 0) = 0xA0
              \<and> unpack_words payload ! 1 = 0 \<and> unpack_words payload ! 2 = 0)"
          using no by (simp add: is_vram_preload_def PT_defs Let_def)
        have next_none: "vram_scan data pos' = Inr None"
        proof (cases "ptype = 0 \<and> length payload \<ge> 4")
          case True': True
          show ?thesis
            using "1.IH"(1)[OF True g refl refl refl True' refl _ rest] nomatch True' by auto
        next
          case False
          show ?thesis
            using "1.IH"(2)[OF True g refl refl refl False rest] .
        qed
        show ?thesis
          using True g nomatch next_none by (subst vram_scan.simps) (auto simp: Let_def)
      qed
    qed
  qed
qed

lemma length_encode_packet: "length (encode_packet (t, payload)) = 4 + length payload"
  by (simp add: encode_packet_def spec_encode_header_def)

lemma get_next_packet_encode:
  assumes "valid_packet pkt"
  shows "get_next_packet (pre @ encode_packet pkt @ rest) (length pre)
         = Inr (Some pkt, length pre + length (encode_packet pkt))"
proof -
  obtain t payload where pkt: "pkt = (t, payload)" by (cases pkt)
  from assms have v: "0 \<le> t" "t < 2 ^ 8" "length payload mod 4 = 0" "int (length payload) div 4 < 2 ^ 24"
    unfolding pkt valid_packet_def by simp_all
  have "int (length payload) mod 4 = int (length payload mod 4)" by (simp add: zmod_int)
  then have "int (length payload) mod 4 = 0" using v(3) by simp
  then have e: "int (length payload) = 4 * (int (length payload) div 4)"
    using mult_div_mod_eq[of 4 "int (length payload)"] by linarith
  have n: "0 \<le> int (length payload) div 4" by simp
  from get_next_packet_encoded[OF v(1,2) n v(4) e, of pre rest]
  show ?thesis unfolding pkt by (simp add: encode_packet_def length_encode_packet[unfolded encode_packet_def, simplified])
qed

lemma encode_stream_Cons: "encode_stream (p # ps) = encode_packet p @ encode_stream ps"
  by (simp add: encode_stream_def)

lemma encode_stream_Nil: "encode_stream [] = []"
  by (simp add: encode_stream_def)

lemma encode_stream_append: "encode_stream (ps @ qs) = encode_stream ps @ encode_stream qs"
  by (simp add: encode_stream_def)

lemma encode_packet_nonempty: "0 < length (encode_packet p)"
  by (cases p) (simp add: length_encode_packet)

lemma first_pass_encode_stream:
  "\<forall>p\<in>set ps. valid_packet p \<Longrightarrow>
   first_pass (pre @ encode_stream ps) (length pre) in_trace offs
     = Inr (index_of ps (length pre) in_trace offs)"
proof (induction ps arbitrary: pre in_trace offs)
  case Nil
  show ?case by (subst first_pass.simps) (simp add: encode_stream_Nil)
next
  case (Cons p ps)
  obtain t payload where p: "p = (t, payload)" by (cases p)
  define D where "D = pre @ encode_stream (p # ps)"
  define P where "P = length pre + length (encode_packet p)"
  have v: "valid_packet p" and vs: "\<forall>p\<in>set ps. valid_packet p" using Cons.prems by simp_all
  have d: "D = pre @ encode_packet p @ encode_stream ps"
    by (simp add: D_def encode_stream_Cons)
  have lt: "length pre < length D"
    using encode_packet_nonempty[of p] unfolding d by simp
  have g: "get_next_packet D (length pre) = Inr (Some (t, payload), P)"
    unfolding d P_def using get_next_packet_encode[OF v, of pre "encode_stream ps"] p by simp
  have d': "D = (pre @ encode_packet p) @ encode_stream ps" using d by simp
  have ih: "first_pass D P tr os = Inr (index_of ps P tr os)" for tr os
    unfolding d' P_def using Cons.IH[OF vs, of "pre @ encode_packet p" tr os] by simp
  have i: "index_of (p # ps) (length pre) in_trace offs =
        (if t = PT_TraceBegin then index_of ps P True (offs @ [P])
         else if t = PT_VSyncEvent \<and> in_trace then index_of ps P in_trace (offs @ [P])
         else index_of ps P in_trace offs)"
    by (simp add: p P_def Let_def)
  have "first_pass D (length pre) in_trace offs = Inr (index_of (p # ps) (length pre) in_trace offs)"
    unfolding i using lt g ih by (subst first_pass.simps) simp
  then show ?case unfolding D_def .
qed

lemma second_pass_encode_stream:
  "\<forall>p\<in>set ps. valid_packet p \<Longrightarrow>
   second_pass (pre @ encode_stream ps) frame_idx (length pre) s = scan_of frame_idx ps s"
proof (induction ps arbitrary: pre s)
  case Nil
  show ?case by (subst second_pass.simps) (simp add: encode_stream_Nil)
next
  case (Cons p ps)
  obtain t payload where p: "p = (t, payload)" by (cases p)
  define D where "D = pre @ encode_stream (p # ps)"
  define P where "P = length pre + length (encode_packet p)"
  have v: "valid_packet p" and vs: "\<forall>p\<in>set ps. valid_packet p" using Cons.prems by simp_all
  have d: "D = pre @ encode_packet p @ encode_stream ps"
    by (simp add: D_def encode_stream_Cons)
  have lt: "length pre < length D"
    using encode_packet_nonempty[of p] unfolding d by simp
  have g: "get_next_packet D (length pre) = Inr (Some (t, payload), P)"
    unfolding d P_def using get_next_packet_encode[OF v, of pre "encode_stream ps"] p by simp
  have d': "D = (pre @ encode_packet p) @ encode_stream ps" using d by simp
  have ih: "second_pass D frame_idx P s' = scan_of frame_idx ps s'" for s'
    unfolding d' P_def using Cons.IH[OF vs, of "pre @ encode_packet p" s'] by simp
  have "second_pass D frame_idx (length pre) s = scan_of frame_idx (p # ps) s"
    using lt g ih
    by (subst second_pass.simps) (simp add: p split: sum.splits prod.splits bool.splits)
  then show ?case unfolding D_def .
qed

lemma index_of_plain:
  "\<forall>p\<in>set fs. fst p \<noteq> PT_TraceBegin \<and> fst p \<noteq> PT_VSyncEvent \<Longrightarrow>
   index_of (fs @ rest) pos in_trace offs
     = index_of rest (pos + length (encode_stream fs)) in_trace offs"
proof (induction fs arbitrary: pos)
  case Nil
  show ?case by (simp add: encode_stream_Nil)
next
  case (Cons p fs)
  then show ?case by (simp add: encode_stream_Cons Let_def add.assoc)
qed

lemma index_of_boundary:
  "fst p = PT_TraceBegin \<or> (fst p = PT_VSyncEvent \<and> in_trace) \<Longrightarrow>
   index_of (p # rest) pos in_trace offs
     = index_of rest (pos + length (encode_packet p)) True (offs @ [pos + length (encode_packet p)])"
  by (auto simp: Let_def)

lemma dump_packet_total: "\<exists>ls. dump_packet t payload = Inr ls"
proof -
  obtain ops where "parse_gp0_stream (unpack_words payload) = Inr ops"
    using parse_gp0_stream_total by blast
  then show ?thesis
    by (auto simp: dump_packet_def unpack_from_I_def Let_def)
qed

lemma dump_packets_Nil: "dump_packets [] = Inr []"
  by (simp add: dump_packets_def)

lemma dump_packets_Cons:
  "dump_packets (p # ps) =
     (case dump_packet (fst p) (snd p) of
        Inl e \<Rightarrow> Inl e
      | Inr l \<Rightarrow> (case dump_packets ps of Inl e \<Rightarrow> Inl e | Inr ls \<Rightarrow> Inr (l @ ls)))"
  by (simp add: dump_packets_def split: sum.splits)

lemma dump_packets_total: "\<exists>ls. dump_packets ps = Inr ls"
proof (induction ps)
  case Nil
  show ?case by (simp add: dump_packets_Nil)
next
  case (Cons p ps)
  then obtain ls where "dump_packets ps = Inr ls" by blast
  moreover obtain l where "dump_packet (fst p) (snd p) = Inr l" using dump_packet_total by blast
  ultimately show ?case by (simp add: dump_packets_Cons)
qed

lemma scan_of_skip:
  "\<forall>p\<in>set fs. fst p \<noteq> PT_TraceBegin \<and> fst p \<noteq> PT_VSyncEvent \<Longrightarrow>
   \<not> dumping s \<or> current_frame s \<noteq> frames_to_skip frame_idx \<Longrightarrow>
   scan_of frame_idx (fs @ rest) s = scan_of frame_idx rest s"
  by (induction fs) (auto simp: frame_packet_def)

lemma scan_of_emit:
  "\<forall>p\<in>set fs. fst p \<noteq> PT_TraceBegin \<and> fst p \<noteq> PT_VSyncEvent \<Longrightarrow>
   dumping s \<Longrightarrow> current_frame s = frames_to_skip frame_idx \<Longrightarrow>
   dump_packets fs = Inr ls \<Longrightarrow>
   scan_of frame_idx (fs @ rest) s
     = scan_of frame_idx rest (s\<lparr>pkt_count := pkt_count s + int (length fs), out := out s @ ls\<rparr>)"
proof (induction fs arbitrary: s ls)
  case Nil
  then show ?case by (simp add: dump_packets_Nil)
next
  case (Cons p fs)
  obtain l where l: "dump_packet (fst p) (snd p) = Inr l" using dump_packet_total by blast
  obtain ls' where ls': "dump_packets fs = Inr ls'" using dump_packets_total by blast
  have ls: "ls = l @ ls'" using Cons.prems(4) l ls' by (simp add: dump_packets_Cons)
  define s' where "s' = s\<lparr>pkt_count := pkt_count s + 1, out := out s @ l\<rparr>"
  have fp: "frame_packet frame_idx (fst p) (snd p) s = Inr (False, s')"
    using Cons.prems(1,2,3) l by (simp add: frame_packet_def s'_def)
  have "scan_of frame_idx (fs @ rest) s'
     = scan_of frame_idx rest (s'\<lparr>pkt_count := pkt_count s' + int (length fs), out := out s' @ ls'\<rparr>)"
    using Cons.prems(1,2,3) by (intro Cons.IH[OF _ _ _ ls']) (simp_all add: s'_def)
  moreover have "s'\<lparr>pkt_count := pkt_count s' + int (length fs), out := out s' @ ls'\<rparr>
      = s\<lparr>pkt_count := pkt_count s + int (length (p # fs)), out := out s @ ls\<rparr>"
    by (simp add: s'_def ls)
  ultimately show ?case using fp by simp
qed

lemma index_of_plain_end:
  "\<forall>p\<in>set fs. fst p \<noteq> PT_TraceBegin \<and> fst p \<noteq> PT_VSyncEvent \<Longrightarrow>
   index_of fs pos in_trace offs = offs"
  using index_of_plain[of fs "[]" pos in_trace offs] by simp

lemma parse_header_ok:
  "length hdr = 14 \<Longrightarrow> take 10 hdr = map (of_nat \<circ> of_char) ''PSXGPUDUMP'' \<Longrightarrow>
   parse_header (hdr @ body) = Inr 14"
  by (simp add: parse_header_def)

lemma frame_packet_trace_begin:
  "frame_packet frame_idx PT_TraceBegin payload s =
     Inr (False,
       if current_frame s + 1 = frames_to_skip frame_idx
       then s\<lparr>current_frame := current_frame s + 1, dumping := True,
              out := out s @ [[CHR 0x0A] @ ''--- Frame '' @ str_int (current_frame s + 1) @ '' ---'']\<rparr>
       else s\<lparr>current_frame := current_frame s + 1\<rparr>)"
  by (simp add: frame_packet_def Let_def)

lemma frame_packet_vsync:
  "frame_packet frame_idx PT_VSyncEvent payload s =
     (let s1 = (if dumping s \<and> current_frame s = frames_to_skip frame_idx
                then s\<lparr>out := out s @ [''  VSync'']\<rparr> else s);
          s2 = s1\<lparr>current_frame := current_frame s + 1\<rparr>
      in if current_frame s + 1 > frames_to_skip frame_idx \<and> frame_idx \<noteq> None then Inr (True, s2)
         else if current_frame s + 1 = frames_to_skip frame_idx then Inr (False, s2\<lparr>dumping := True\<rparr>)
         else Inr (False, s2))"
  by (simp add: frame_packet_def Let_def PT_defs)

lemma unpack_words_pack_I:
  "0 \<le> h \<Longrightarrow> h < 2 ^ 32 \<Longrightarrow> unpack_words (pack_I h @ rest) = h # unpack_words rest"
  using le32_pack_I[of h] by (simp add: pack_I_def)

lemma flat_triangle_opcode:
  assumes "0x20000000 \<le> (c::int)" "c < 0x24000000"
  shows "0x20 \<le> drop_bit 24 c AND 0xFF" "drop_bit 24 c AND 0xFF \<le> 0x23"
    "drop_bit 24 c = drop_bit 24 c AND 0xFF"
proof -
  have lo: "0x20 \<le> c div 2 ^ 24" using assms(1) by (simp add: zdiv_mono1 [of "0x20000000" c "2 ^ 24", simplified])
  have hi: "c div 2 ^ 24 < 0x24" using assms(2) by (simp add: div_less_iff_less_mult)
  have "take_bit 8 (c div 2 ^ 24) = c div 2 ^ 24"
    using lo hi by (simp add: take_bit_int_eq_self)
  then have e: "drop_bit 24 c AND 0xFF = c div 2 ^ 24"
    unfolding and_FF by (simp add: drop_bit_eq_div)
  show "0x20 \<le> drop_bit 24 c AND 0xFF" "drop_bit 24 c AND 0xFF \<le> 0x23"
    using lo hi unfolding e by simp_all
  show "drop_bit 24 c = drop_bit 24 c AND 0xFF" unfolding e by (simp add: drop_bit_eq_div)
qed

lemma flat_triangle_bits:
  assumes "0x20 \<le> cmd" "cmd \<le> (0x23::int)"
  shows "cmd AND 0x10 = 0" "cmd AND 0x08 = 0" "cmd AND 0x04 = 0"
proof -
  from assms have "cmd = 0x20 \<or> cmd = 0x21 \<or> cmd = 0x22 \<or> cmd = 0x23" by auto
  then show "cmd AND 0x10 = 0" "cmd AND 0x08 = 0" "cmd AND 0x04 = 0" by auto
qed

lemma gp0_step_flat_triangle:
  assumes "cmd = drop_bit 24 c AND 0xFF" "0x20 \<le> cmd" "cmd \<le> 0x23"
  shows "gp0_step [c, v0, v1, v2] 0
         = Inr ([(4, ''  GP0 TRI_FLAT ''
                   @ fmt_vert (0, sign_extend_11 (v0 AND 0x7FF), sign_extend_11 (drop_bit 16 v0 AND 0x7FF), color5 c)
                   @ '' ''
                   @ fmt_vert (1, sign_extend_11 (v1 AND 0x7FF), sign_extend_11 (drop_bit 16 v1 AND 0x7FF), color5 c)
                   @ '' ''
                   @ fmt_vert (2, sign_extend_11 (v2 AND 0x7FF), sign_extend_11 (drop_bit 16 v2 AND 0x7FF), color5 c))],
                4)"
proof -
  note b = flat_triangle_bits[OF assms(2,3)]
  have env: "GP0_ENV cmd = None" using assms(2,3) by (intro GP0_ENV_classified) simp_all
  have n: "gp0_param_count cmd = 3"
    using gp0_param_count_polygon_bits[of cmd] assms(2,3) b by simp
  have s: "gp0_step [c, v0, v1, v2] 0 = gp0_polygon [c, v0, v1, v2] 0 cmd"
    using env assms(2,3) by (simp add: gp0_step_def assms(1)[symmetric] Let_def)
  show ?thesis
    unfolding s gp0_polygon_def n Let_def b
    by (simp add: upt_3 Let_def enumerate_eq_zip numeral_2_eq_2)
qed

lemma parse_gp0_stream_single:
  assumes "gp0_step ws 0 = Inr ([op], length ws)" "ws \<noteq> []"
  shows "parse_gp0_stream ws = Inr [op]"
proof -
  have "parse_gp0_loop ws 0 [] = parse_gp0_loop ws (length ws) ([] @ [op])"
    using assms by (intro parse_gp0_loop_step) simp_all
  also have "\<dots> = Inr [op]" by (subst parse_gp0_loop.simps) simp
  finally show ?thesis by (simp add: parse_gp0_stream_def)
qed

text \<open>
  Every loop of \<open>main\<close> takes "no more packets" for the end of the stream: it stops there with
  what it has so far, and none of them raises.
\<close>

lemma get_next_packet_cases:
  obtains pos' where "get_next_packet data pos = Inr (None, pos')"
  | ptype payload pos' where "get_next_packet data pos = Inr (Some (ptype, payload), pos')"
proof (cases "get_next_packet data pos")
  case (Inl e)
  then show ?thesis using get_next_packet_no_error by blast
next
  case (Inr r)
  obtain pk pos' where r: "r = (pk, pos')" by (cases r)
  show ?thesis
  proof (cases pk)
    case None
    then show ?thesis using that(1) Inr r by simp
  next
    case (Some pkt)
    then show ?thesis using that(2)[of "fst pkt" "snd pkt" pos'] Inr r by simp
  qed
qed

lemma sentinel_conditions:
  "(\<exists>pos'. get_next_packet data pos = Inr (None, pos')) \<longleftrightarrow>
   (length data < pos + 4 \<or> int (length data) < int pos + 4 + 4 * (le32 data pos AND 0xFFFFFF))"
  by (auto simp: get_next_packet_def unpack_from_I_def Let_def)

lemma frame_packet_total: "\<exists>r. frame_packet frame_idx ptype payload s = Inr r"
proof -
  obtain ls where "dump_packet ptype payload = Inr ls" using dump_packet_total by blast
  then show ?thesis by (auto simp: frame_packet_def Let_def)
qed

lemma list_packet_total: "\<exists>ls. list_packet dump_content n ptype payload = Inr ls"
proof -
  obtain ops where "parse_gp0_stream (unpack_words payload) = Inr ops"
    using parse_gp0_stream_total by blast
  then show ?thesis by (simp add: list_packet_def unpack_from_I_def Let_def)
qed

lemma first_pass_sentinel:
  "get_next_packet data pos = Inr (None, pos') \<Longrightarrow>
   first_pass data pos in_trace offs = Inr offs"
  by (subst first_pass.simps) simp

lemma second_pass_sentinel:
  "get_next_packet data pos = Inr (None, pos') \<Longrightarrow> second_pass data frame_idx pos s = Inr s"
  by (subst second_pass.simps) simp

lemma vram_scan_sentinel:
  "get_next_packet data pos = Inr (None, pos') \<Longrightarrow> vram_scan data pos = Inr None"
  by (subst vram_scan.simps) simp

lemma list_loop_sentinel:
  "get_next_packet data pos = Inr (None, pos') \<Longrightarrow>
   list_loop data dump_content pos n printed = Inr printed"
  by (subst list_loop.simps) simp

lemma first_pass_total: "\<exists>offs'. first_pass data pos in_trace offs = Inr offs'"
proof (induction data pos in_trace offs rule: first_pass.induct)
  case (1 data pos in_trace offs)
  show ?case
  proof (cases "pos < length data")
    case False
    then show ?thesis by (subst first_pass.simps) simp
  next
    case True
    show ?thesis
    proof (cases data pos rule: get_next_packet_cases)
      case (1 pos')
      then show ?thesis by (simp add: first_pass_sentinel)
    next
      case (2 ptype payload pos')
      show ?thesis
        using "1.IH"[OF True 2 refl refl refl] True 2
        by (subst first_pass.simps) auto
    qed
  qed
qed

lemma second_pass_total: "\<exists>s'. second_pass data frame_idx pos s = Inr s'"
proof (induction data frame_idx pos s rule: second_pass.induct)
  case (1 data frame_idx pos s)
  show ?case
  proof (cases "pos < length data")
    case False
    then show ?thesis by (subst second_pass.simps) simp
  next
    case True
    show ?thesis
    proof (cases data pos rule: get_next_packet_cases)
      case (1 pos')
      then show ?thesis by (simp add: second_pass_sentinel)
    next
      case (2 ptype payload pos')
      obtain b s' where fp: "frame_packet frame_idx ptype payload s = Inr (b, s')"
        using frame_packet_total[of frame_idx ptype payload s] by auto
      show ?thesis
      proof (cases b)
        case True': True
        then show ?thesis using True 2 fp by (subst second_pass.simps) simp
      next
        case False
        then show ?thesis
          using "1.IH"[OF True 2 refl refl refl fp[unfolded False] refl] True 2 fp
          by (subst second_pass.simps) simp
      qed
    qed
  qed
qed

lemma vram_scan_total: "\<exists>found. vram_scan data pos = Inr found"
proof (induction data pos rule: vram_scan.induct)
  case (1 data pos)
  show ?case
  proof (cases "pos < length data")
    case False
    then show ?thesis by (subst vram_scan.simps) simp
  next
    case True
    show ?thesis
    proof (cases data pos rule: get_next_packet_cases)
      case (1 pos')
      then show ?thesis by (simp add: vram_scan_sentinel)
    next
      case (2 ptype payload pos')
      show ?thesis
        using "1.IH"(1)[OF True 2 refl refl refl _ refl] "1.IH"(2)[OF True 2 refl refl refl] True 2
        by (subst vram_scan.simps) (auto simp: Let_def)
    qed
  qed
qed

lemma list_loop_total: "\<exists>printed'. list_loop data dump_content pos n printed = Inr printed'"
proof (induction data dump_content pos n printed rule: list_loop.induct)
  case (1 data dump_content pos n printed)
  show ?case
  proof (cases "pos < length data \<and> n < 200")
    case False
    then show ?thesis by (subst list_loop.simps) auto
  next
    case True
    show ?thesis
    proof (cases data pos rule: get_next_packet_cases)
      case (1 pos')
      then show ?thesis by (simp add: list_loop_sentinel)
    next
      case (2 ptype payload pos')
      obtain ls where ls: "list_packet dump_content n ptype payload = Inr ls"
        using list_packet_total by blast
      show ?thesis
        using "1.IH"[OF True 2 refl refl refl ls] True 2 ls
        by (subst list_loop.simps) auto
    qed
  qed
qed

section \<open>Properties\<close>

subsection \<open>Packet reader\<close>

text \<open>
  Claim C6. For every capture buffer and cursor position the packet reader raises nothing,
  and it returns the "no more packets" sentinel \<open>None\<close> exactly when fewer than 4 bytes remain
  at the cursor or when the payload length declared by the header (its low 24 bits, in
  words) would run past the end of the buffer. Both conditions are the end of the stream
  for every loop of \<open>main\<close> (list and pre-trace mode, the two passes of frame mode, the VRAM
  scan): at such a cursor the loop stops and returns what it has so far. No loop raises,
  from any cursor, so a capture with a valid header runs list, pre-trace and frame mode
  to their end.
\<close>

theorem get_next_packet_sentinel:
  "(\<exists>r. get_next_packet data pos = Inr r) \<and>
   ((\<exists>pos'. get_next_packet data pos = Inr (None, pos')) \<longleftrightarrow>
    (length data < pos + 4 \<or> int (length data) < int pos + 4 + 4 * (le32 data pos AND 0xFFFFFF))) \<and>
   (length data < pos + 4 \<or> int (length data) < int pos + 4 + 4 * (le32 data pos AND 0xFFFFFF) \<longrightarrow>
      list_loop data dump_content pos n printed = Inr printed \<and>
      first_pass data pos in_trace offs = Inr offs \<and>
      second_pass data frame_idx pos s = Inr s \<and>
      vram_scan data pos = Inr None) \<and>
   (\<exists>printed'. list_loop data dump_content pos n printed = Inr printed') \<and>
   (\<exists>offs'. first_pass data pos in_trace offs = Inr offs') \<and>
   (\<exists>s'. second_pass data frame_idx pos s = Inr s') \<and>
   (\<exists>found. vram_scan data pos = Inr found) \<and>
   ((\<exists>start. parse_header data = Inr start) \<longrightarrow>
      (\<exists>r. main_list data dump_content = Inr r) \<and> (\<exists>r. main_frames data frame_idx = Inr r))"
proof (intro conjI impI)
  show "\<exists>r. get_next_packet data pos = Inr r"
    by (cases data pos rule: get_next_packet_cases) simp_all
  show "(\<exists>pos'. get_next_packet data pos = Inr (None, pos')) \<longleftrightarrow>
    (length data < pos + 4 \<or> int (length data) < int pos + 4 + 4 * (le32 data pos AND 0xFFFFFF))"
    by (rule sentinel_conditions)
next
  assume "length data < pos + 4 \<or> int (length data) < int pos + 4 + 4 * (le32 data pos AND 0xFFFFFF)"
  then obtain pos' where g: "get_next_packet data pos = Inr (None, pos')"
    using sentinel_conditions[of data pos] by blast
  show "list_loop data dump_content pos n printed = Inr printed" using g by (rule list_loop_sentinel)
  show "first_pass data pos in_trace offs = Inr offs" using g by (rule first_pass_sentinel)
  show "second_pass data frame_idx pos s = Inr s" using g by (rule second_pass_sentinel)
  show "vram_scan data pos = Inr None" using g by (rule vram_scan_sentinel)
next
  show "\<exists>printed'. list_loop data dump_content pos n printed = Inr printed'" by (rule list_loop_total)
  show "\<exists>offs'. first_pass data pos in_trace offs = Inr offs'" by (rule first_pass_total)
  show "\<exists>s'. second_pass data frame_idx pos s = Inr s'" by (rule second_pass_total)
  show "\<exists>found. vram_scan data pos = Inr found" by (rule vram_scan_total)
next
  assume "\<exists>start. parse_header data = Inr start"
  then obtain start where ph: "parse_header data = Inr start" by blast
  obtain printed where "list_loop data dump_content start 0 [] = Inr printed"
    using list_loop_total by blast
  then show "\<exists>r. main_list data dump_content = Inr r" using ph by (simp add: main_list_def)
next
  assume "\<exists>start. parse_header data = Inr start"
  then obtain start where ph: "parse_header data = Inr start" by blast
  obtain offs where fp: "first_pass data start False [] = Inr offs" using first_pass_total by blast
  obtain s' where "second_pass data frame_idx start
      \<lparr>current_frame = - 1, dumping = (frame_idx = None \<or> frame_idx = Some 0),
       pkt_count = 0, out = []\<rparr> = Inr s'"
    using second_pass_total by blast
  then show "\<exists>r. main_frames data frame_idx = Inr r"
    using ph fp by (simp add: main_frames_def)
qed


theorem get_next_packet_sentinel_witness:
  "(\<exists>pos'. get_next_packet
      ([0x50, 0x53, 0x58, 0x47, 0x50, 0x55, 0x44, 0x55, 0x4D, 0x50, 0x76, 0x31, 0, 0]
       @ [0, 0, 0, 5] @ [5, 0, 0, 0, 1, 2]) 18 = Inr (None, pos')) \<and>
   list_loop
      ([0x50, 0x53, 0x58, 0x47, 0x50, 0x55, 0x44, 0x55, 0x4D, 0x50, 0x76, 0x31, 0, 0]
       @ [0, 0, 0, 5] @ [5, 0, 0, 0, 1, 2]) True 18 1 [] = Inr [] \<and>
   first_pass
      ([0x50, 0x53, 0x58, 0x47, 0x50, 0x55, 0x44, 0x55, 0x4D, 0x50, 0x76, 0x31, 0, 0]
       @ [0, 0, 0, 5] @ [5, 0, 0, 0, 1, 2]) 18 True [18] = Inr [18] \<and>
   second_pass
      ([0x50, 0x53, 0x58, 0x47, 0x50, 0x55, 0x44, 0x55, 0x4D, 0x50, 0x76, 0x31, 0, 0]
       @ [0, 0, 0, 5] @ [5, 0, 0, 0, 1, 2]) None 18
      \<lparr>current_frame = 0, dumping = True, pkt_count = 0, out = []\<rparr>
     = Inr \<lparr>current_frame = 0, dumping = True, pkt_count = 0, out = []\<rparr> \<and>
   vram_scan
      ([0x50, 0x53, 0x58, 0x47, 0x50, 0x55, 0x44, 0x55, 0x4D, 0x50, 0x76, 0x31, 0, 0]
       @ [0, 0, 0, 5] @ [5, 0, 0, 0, 1, 2]) 18 = Inr None \<and>
   (\<exists>r. main_frames
      ([0x50, 0x53, 0x58, 0x47, 0x50, 0x55, 0x44, 0x55, 0x4D, 0x50, 0x76, 0x31, 0, 0]
       @ [0, 0, 0, 5] @ [5, 0, 0, 0, 1, 2]) None = Inr r)"
proof -
  let ?D = "[0x50, 0x53, 0x58, 0x47, 0x50, 0x55, 0x44, 0x55, 0x4D, 0x50, 0x76, 0x31, 0, 0]
       @ [0, 0, 0, 5] @ [5, 0, 0, 0, 1, 2] :: bytes"
  let ?S = "\<lparr>current_frame = 0, dumping = True, pkt_count = 0, out = []\<rparr>"
  have c: "length ?D < 18 + 4 \<or> int (length ?D) < int 18 + 4 + 4 * (le32 ?D 18 AND 0xFFFFFF)"
    by (simp add: le32_def)
  have ph: "\<exists>start. parse_header ?D = Inr start" by (simp add: parse_header_def)
  note t = get_next_packet_sentinel[where data = ?D and pos = 18 and dump_content = True
      and n = 1 and printed = "[]" and in_trace = True and offs = "[18]" and frame_idx = None
      and s = ?S]
  from t c ph show ?thesis by blast
qed

text \<open>
  Claim C7. For a valid 32-bit header word the packet reader returns the type
  \<open>(header >> 24) & 0xFF\<close> and a payload of \<open>header & 0xFFFFFF\<close> words. Round trip: for every
  type in 0..255 and every word count in 0..2^24-1, a header encoded from those fields and
  followed by that many payload words is read back with the same type and the same word
  count, wherever the packet stands in the buffer.
\<close>

theorem packet_header_round_trip:
  "(0 \<le> hdr \<and> hdr < 2 ^ 32 \<and> int (length payload) = 4 * (hdr AND 0xFFFFFF) \<longrightarrow>
      get_next_packet (pre @ pack_I hdr @ payload @ rest) (length pre)
        = Inr (Some (drop_bit 24 hdr AND 0xFF, payload), length pre + 4 + length payload)) \<and>
   (0 \<le> ptype \<and> ptype < 2 ^ 8 \<and> 0 \<le> word_count \<and> word_count < 2 ^ 24
      \<and> int (length payload') = 4 * word_count \<longrightarrow>
      get_next_packet (pre @ spec_encode_header ptype word_count @ payload' @ rest) (length pre)
        = Inr (Some (ptype, payload'), length pre + 4 + length payload')
      \<and> int (length payload') div 4 = word_count)"
  using get_next_packet_packed[of hdr payload pre rest]
        get_next_packet_encoded[of ptype word_count payload' pre rest]
  by simp

theorem packet_header_round_trip_witness:
  "get_next_packet ([] @ pack_I 0x05000001 @ [1, 2, 3, 4] @ [9]) 0
     = Inr (Some (5, [1, 2, 3, 4]), 8) \<and>
   get_next_packet ([] @ spec_encode_header 0xFF 2 @ [1, 2, 3, 4, 5, 6, 7, 8] @ []) 0
     = Inr (Some (0xFF, [1, 2, 3, 4, 5, 6, 7, 8]), 12)"
  using packet_header_round_trip[of "0x05000001" "[1, 2, 3, 4]" "[]" "[9]" 0 0 "[]"]
        packet_header_round_trip[of 0 "[]" "[]" "[]" "0xFF" 2 "[1, 2, 3, 4, 5, 6, 7, 8]"]
  by simp

subsection \<open>Operand counts and sign extension\<close>

text \<open>
  Claim C8. The draw-offset sign extension maps the 11-bit field 0x7FF to -1, 0x000 to 0
  and 0x400 to -1024; every field value from 0x400 on becomes negative by subtracting
  0x800, and every smaller one is unchanged.
\<close>

theorem sign_extend_11_field:
  "sign_extend_11 0x7FF = - 1 \<and> sign_extend_11 0x000 = 0 \<and> sign_extend_11 0x400 = - 1024 \<and>
   (\<forall>x. 0 \<le> x \<and> x < 0x800 \<longrightarrow>
      sign_extend_11 x = (if 0x400 \<le> x then x - 0x800 else x) \<and>
      (0x400 \<le> x \<longrightarrow> sign_extend_11 x < 0))"
proof -
  have v: "sign_extend_11 0x7FF = - 1" "sign_extend_11 0x000 = 0" "sign_extend_11 0x400 = - 1024"
    by (simp_all add: sign_extend_11_def)
  have "sign_extend_11 x = (if 0x400 \<le> x then x - 0x800 else x) \<and>
        (0x400 \<le> x \<longrightarrow> sign_extend_11 x < 0)" if "0 \<le> x \<and> x < 0x800" for x
  proof -
    from that have m: "x mod 2048 = x" by simp
    from that have "(x AND 0x400 \<noteq> 0) = (1024 \<le> x)" by (simp add: and_400)
    with that show ?thesis by (simp add: sign_extend_11_def and_7FF m)
  qed
  with v show ?thesis by blast
qed

theorem sign_extend_11_field_witness:
  "sign_extend_11 0x5A3 = 0x5A3 - 0x800 \<and> sign_extend_11 0x5A3 < 0 \<and> sign_extend_11 0x123 = 0x123"
  using sign_extend_11_field by simp

text \<open>
  Claim C2. For every polygon opcode in 0x20-0x3F, written as 0x20 plus the Gouraud bit
  (0x10), the quad bit (0x08), the textured bit (0x04) and the two low bits, the operand
  count depends on the three flags only: with verts = 4 for a quad and 3 otherwise it is
  verts (flat), 2 * verts (flat textured), 2 * verts - 1 (Gouraud) and 3 * verts - 1
  (Gouraud textured). The flat triangle has 3 operand words, the textured Gouraud quad
  4 * 3 - 1 = 11.
\<close>

theorem gp0_param_count_polygon_table:
  "0 \<le> low \<and> low < 4 \<longrightarrow>
   gp0_param_count (0x20 + (if gouraud then 0x10 else 0) + (if quad then 0x08 else 0)
                         + (if textured then 0x04 else 0) + low)
   = (let verts = (if quad then 4 else 3)
      in if gouraud then (if textured then 3 * verts - 1 else 2 * verts - 1)
         else (if textured then 2 * verts else verts))"
proof
  assume "0 \<le> low \<and> low < 4"
  then have "low = 0 \<or> low = 1 \<or> low = 2 \<or> low = 3" by auto
  then show "gp0_param_count (0x20 + (if gouraud then 0x10 else 0) + (if quad then 0x08 else 0)
                         + (if textured then 0x04 else 0) + low)
   = (let verts = (if quad then 4 else 3)
      in if gouraud then (if textured then 3 * verts - 1 else 2 * verts - 1)
         else (if textured then 2 * verts else verts))"
    by (cases gouraud; cases quad; cases textured) (auto simp: gp0_param_count_def)
qed

theorem gp0_param_count_polygon_table_witness:
  "gp0_param_count 0x20 = 3 \<and> gp0_param_count 0x3C = 4 * 3 - 1"
  using gp0_param_count_polygon_table[of 0 False False False]
        gp0_param_count_polygon_table[of 0 True True True]
  by simp

subsection \<open>GP0 decoder\<close>

text \<open>
  Claim C1. For every well-formed (not truncated) GP0 word stream the decoder returns a
  list of operations whose consumed word counts add up to the length of the stream, and
  every consumed word count is at least 1.
\<close>

theorem parse_gp0_stream_consumed_sum:
  assumes "spec_well_formed words"
  shows "\<exists>ops. parse_gp0_stream words = Inr ops \<and> sum_list (map fst ops) = int (length words)
           \<and> (\<forall>op\<in>set ops. 1 \<le> fst op)"
  using parse_gp0_loop_ops[of 0 words "[]"] assms
  unfolding parse_gp0_stream_def spec_well_formed_def by auto

theorem parse_gp0_stream_consumed_sum_witness:
  "spec_well_formed [0x20FFFFFF, 0x00100020, 0x07FF0400, 0, 0xE5000000, 0x02000000, 0x48000000, 5, 0x50005000, 1, 2, 3] \<and>
   (\<exists>ops. parse_gp0_stream [0x20FFFFFF, 0x00100020, 0x07FF0400, 0, 0xE5000000, 0x02000000, 0x48000000, 5, 0x50005000, 1, 2, 3] = Inr ops
       \<and> sum_list (map fst ops) = 12)"
proof -
  have wf: "spec_well_formed [0x20FFFFFF, 0x00100020, 0x07FF0400, 0, 0xE5000000, 0x02000000, 0x48000000, 5, 0x50005000, 1, 2, 3]"
    by code_simp
  show ?thesis using parse_gp0_stream_consumed_sum[OF wf] wf by auto
qed

text \<open>
  Claim C4, as the code has it. The claim as stated fails for VRAM writes: below, the
  operation needs 5 words and 3 are left, and the decoder emits a VRAM write that consumes
  the 3 words, not an "incomplete" marker that consumes 1.
\<close>

theorem incomplete_marker_counterexample:
  "spec_op_len [0xA0000000, 2, 2] 0 = None \<and>
   parse_gp0_stream [0xA0000000, 2, 2] = Inr [(3, ''  GP0 VRAM_WRITE ~4 pixels'')]"
  by code_simp

text \<open>
  Claim C4, amended. For every GP0 word stream and every polygon, single-segment line or
  rectangle operation (opcodes 0x20-0x7F, polylines apart) whose operand words would
  exceed the remaining words of the stream, the decoder emits an "incomplete" marker that
  consumes only the opcode word, advances by exactly 1 word and goes on decoding the rest
  of the stream. A VRAM write (opcode 0xA0) that has its three header words is never marked
  incomplete: it consumes the smaller of 3 + ceil(pixels / 2) and the number of remaining
  words. The decode of a stream never aborts. Nothing is said here of a polyline whose
  terminator is missing, nor of a VRAM write cut inside its header.
\<close>

theorem incomplete_marker_polygon_line_rect:
  assumes "i < length words"
    and "cmd = drop_bit 24 (words ! i) AND 0xFF"
    and "kind = (if cmd \<le> 0x3F then ''POLY'' else if cmd \<le> 0x5F then ''LINE'' else ''RECT'')"
    and "marker = (1, ''  GP0 '' @ kind @ '' 0x'' @ fmt_X 2 cmd @ '' (incomplete)'')"
    and "n = (words ! (i + 1) AND 0xFFFF) * (words ! (i + 2) AND 0xFFFF)"
  shows "(0x20 \<le> cmd \<and> cmd \<le> 0x7F \<and> \<not> (0x40 \<le> cmd \<and> cmd \<le> 0x5F \<and> cmd AND 0x08 \<noteq> 0)
            \<and> int (length words) < int i + 1 + gp0_param_count cmd \<longrightarrow>
            spec_op_len words i = None \<and>
            gp0_step words i = Inr ([marker], i + 1) \<and>
            parse_gp0_loop words i lines = parse_gp0_loop words (i + 1) (lines @ [marker]) \<and>
            (\<exists>rest. parse_gp0_loop words i lines = Inr (lines @ marker # rest))) \<and>
         (cmd = 0xA0 \<and> i + 3 \<le> length words \<longrightarrow>
            gp0_step words i
              = Inr ([(min (3 + (n + 1) div 2) (int (length words) - int i),
                       ''  GP0 VRAM_WRITE ~'' @ str_int n @ '' pixels'')],
                     nat (int i + min (3 + (n + 1) div 2) (int (length words) - int i)))) \<and>
         (\<exists>ops. parse_gp0_stream words = Inr ops)"
proof (intro conjI impI)
  assume h: "0x20 \<le> cmd \<and> cmd \<le> 0x7F \<and> \<not> (0x40 \<le> cmd \<and> cmd \<le> 0x5F \<and> cmd AND 0x08 \<noteq> 0)
            \<and> int (length words) < int i + 1 + gp0_param_count cmd"
  have env: "GP0_ENV cmd = None" using h by (intro GP0_ENV_classified) simp_all
  show "spec_op_len words i = None"
    using h unfolding spec_op_len_def assms(2)[symmetric] Let_def by auto
  consider (poly) "cmd \<le> 0x3F" | (line) "0x40 \<le> cmd" "cmd \<le> 0x5F" | (rect) "0x60 \<le> cmd"
    by fastforce
  then show st: "gp0_step words i = Inr ([marker], i + 1)"
  proof cases
    case poly
    then have "gp0_step words i = gp0_polygon words i cmd"
      using env h by (simp add: gp0_step_def assms(2)[symmetric] Let_def)
    then show ?thesis using h poly unfolding assms(3,4)
      by (simp add: gp0_polygon_incomplete)
  next
    case line
    then have "gp0_step words i = gp0_line words i cmd"
      using env h by (simp add: gp0_step_def assms(2)[symmetric] Let_def)
    moreover have "\<not> gp0_param_count cmd < 0"
      using line h gp0_param_count_line[OF line] by auto
    ultimately show ?thesis using h line unfolding assms(3,4)
      by (simp add: gp0_line_def Let_def)
  next
    case rect
    then have "gp0_step words i = gp0_rect words i cmd"
      using env h by (simp add: gp0_step_def assms(2)[symmetric] Let_def)
    then show ?thesis using h rect unfolding assms(3,4)
      by (simp add: gp0_rect_def Let_def)
  qed
  show run: "parse_gp0_loop words i lines = parse_gp0_loop words (i + 1) (lines @ [marker])"
    using assms(1) st by (rule parse_gp0_loop_step)
  from assms(1) have "i + 1 \<le> length words" by simp
  from parse_gp0_loop_ops[OF this, of "lines @ [marker]"] obtain rest where
    "parse_gp0_loop words (i + 1) (lines @ [marker]) = Inr ((lines @ [marker]) @ rest)" by blast
  then show "\<exists>rest. parse_gp0_loop words i lines = Inr (lines @ marker # rest)"
    using run by simp
next
  assume h: "cmd = 0xA0 \<and> i + 3 \<le> length words"
  then have env: "GP0_ENV cmd = None" using GP0_ENV_dom[of cmd] by auto
  have "gp0_step words i = gp0_vram_write words i"
    using env h by (simp add: gp0_step_def assms(2)[symmetric] Let_def)
  then show "gp0_step words i
              = Inr ([(min (3 + (n + 1) div 2) (int (length words) - int i),
                       ''  GP0 VRAM_WRITE ~'' @ str_int n @ '' pixels'')],
                     nat (int i + min (3 + (n + 1) div 2) (int (length words) - int i)))"
    using h by (simp add: gp0_vram_write_def Let_def assms(5))
next
  show "\<exists>ops. parse_gp0_stream words = Inr ops" by (rule parse_gp0_stream_total)
qed

theorem incomplete_marker_polygon_line_rect_witness:
  "spec_op_len [0x3C000000, 5] 0 = None \<and>
   gp0_step [0x3C000000, 5] 0 = Inr ([(1, ''  GP0 POLY 0x3C (incomplete)'')], 0 + 1) \<and>
   parse_gp0_loop [0x3C000000, 5] 0 []
     = parse_gp0_loop [0x3C000000, 5] (0 + 1) ([] @ [(1, ''  GP0 POLY 0x3C (incomplete)'')]) \<and>
   (\<exists>rest. parse_gp0_loop [0x3C000000, 5] 0 []
             = Inr ([] @ (1, ''  GP0 POLY 0x3C (incomplete)'') # rest)) \<and>
   gp0_step [0xA0000000, 2, 2] 0 = Inr ([(3, ''  GP0 VRAM_WRITE ~4 pixels'')], 3)"
proof -
  let ?ws = "[0x3C000000, 5] :: int list"
  let ?vs = "[0xA0000000, 2, 2] :: int list"
  have a: "(0::nat) < length ?ws" "(0::nat) < length ?vs" by simp_all
  have b: "(0x3C::int) = drop_bit 24 (?ws ! 0) AND 0xFF" "(0xA0::int) = drop_bit 24 (?vs ! 0) AND 0xFF"
    by simp_all
  have d: "''POLY'' = (if (0x3C::int) \<le> 0x3F then ''POLY'' else if (0x3C::int) \<le> 0x5F then ''LINE'' else ''RECT'')"
    by simp
  have d': "''RECT'' = (if (0xA0::int) \<le> 0x3F then ''POLY'' else if (0xA0::int) \<le> 0x5F then ''LINE'' else ''RECT'')"
    by simp
  have e: "(1::int, ''  GP0 POLY 0x3C (incomplete)'') = (1, ''  GP0 '' @ ''POLY'' @ '' 0x'' @ fmt_X 2 0x3C @ '' (incomplete)'')"
    by code_simp
  have g: "(4::int) = (?vs ! (0 + 1) AND 0xFFFF) * (?vs ! (0 + 2) AND 0xFFFF)" by simp
  have h: "str_int 4 = ''4''" by code_simp
  have p: "0x20 \<le> (0x3C::int) \<and> (0x3C::int) \<le> 0x7F
           \<and> \<not> (0x40 \<le> (0x3C::int) \<and> (0x3C::int) \<le> 0x5F \<and> (0x3C::int) AND 0x08 \<noteq> 0)
           \<and> int (length ?ws) < int 0 + 1 + gp0_param_count 0x3C"
    by (simp add: gp0_param_count_def)
  note t = incomplete_marker_polygon_line_rect[OF a(1) b(1) d e refl, of "[]"]
  note 1 = mp[OF conjunct1[OF t] p]
  from incomplete_marker_polygon_line_rect[OF a(2) b(2) d' refl g, of "[]"]
  have 2: "gp0_step ?vs 0 = Inr ([(3, ''  GP0 VRAM_WRITE ~4 pixels'')], 3)"
    by (simp add: h)
  from 1 2 show ?thesis by blast
qed



subsection \<open>Report modes\<close>

text \<open>
  Claim C9. For every capture with a valid container header whose packet stream has no GP0
  payload that begins with opcode 0xA0 and two zero origin words and counts at least
  3 + 262144 words, VRAM mode prints "VRAM not found in dump", exits with status 1 and
  writes no file (no image export, no summary; the preview is not printed either).
\<close>

theorem vram_not_found:
  assumes "parse_header data = Inr pos"
    and "\<forall>pkt\<in>set (read_packets data pos). \<not> is_vram_preload pkt"
  shows "main_vram data ppm_name txt_name
         = Inr \<lparr>stdout = [''VRAM not found in dump''], written = [], exit_status = 1\<rparr>"
  using assms(1) vram_scan_none[OF assms(2)] by (simp add: main_vram_def)

theorem vram_not_found_witness:
  "main_vram ([0x50, 0x53, 0x58, 0x47, 0x50, 0x55, 0x44, 0x55, 0x4D, 0x50, 0x76, 0x31, 0, 0]
              @ [0, 0, 0, 5] @ [3, 0, 0, 0, 0, 0, 0, 0xA0, 0, 0, 0, 0, 0, 0, 0, 0] @ [0, 0, 0, 2])
             ''dump_vram.ppm'' ''dump_vram_layout.txt''
   = Inr \<lparr>stdout = [''VRAM not found in dump''], written = [], exit_status = 1\<rparr>"
proof -
  let ?data = "[0x50, 0x53, 0x58, 0x47, 0x50, 0x55, 0x44, 0x55, 0x4D, 0x50, 0x76, 0x31, 0, 0]
              @ [0, 0, 0, 5] @ [3, 0, 0, 0, 0, 0, 0, 0xA0, 0, 0, 0, 0, 0, 0, 0, 0] @ [0, 0, 0, 2] :: bytes"
  have h: "parse_header ?data = Inr 14" by code_simp
  have r: "read_packets ?data 14
           = [(5, []), (0, [0, 0, 0, 0xA0, 0, 0, 0, 0, 0, 0, 0, 0]), (2, [])]" by code_simp
  have p: "\<forall>pkt\<in>set (read_packets ?data 14). \<not> is_vram_preload pkt"
    unfolding r by (simp add: is_vram_preload_def PT_defs)
  from vram_not_found[OF h p] show ?thesis .
qed

text \<open>
  Claim C5. Take a synthetic capture: a valid container header, then one TraceBegin packet
  \<open>tb\<close> followed by three VSync packets \<open>v1\<close>, \<open>v2\<close>, \<open>v3\<close>, with any packets that are neither
  TraceBegin nor VSync before, between and after them (\<open>pre\<close>, \<open>f0\<close>, \<open>f1\<close>, \<open>f2\<close>, \<open>f3\<close>). The
  frame index of the first pass has length 4: the offsets \<open>o0\<close> after the TraceBegin and
  \<open>o1\<close>, \<open>o2\<close>, \<open>o3\<close> after the three VSyncs. Index offsets are numbered from 0, as frames are
  (frame N lies between offset N and offset N + 1). The bytes from offset 2 to offset 3
  hold the packets \<open>f2\<close> and the VSync that closes the frame, and a request for frame 2
  prints what \<open>dump_packet\<close> gives for the packets \<open>f2\<close> and nothing of any other GP0 or GP1
  packet, then the line of the closing VSync and the totals (4 frames, and the number of
  packets of \<open>f2\<close>).
\<close>

theorem frame_two_of_four:
  assumes "length hdr = 14" "take 10 hdr = map (of_nat \<circ> of_char) ''PSXGPUDUMP''"
    and "\<forall>p\<in>set (pre @ f0 @ f1 @ f2 @ f3).
           valid_packet p \<and> fst p \<noteq> PT_TraceBegin \<and> fst p \<noteq> PT_VSyncEvent"
    and "valid_packet tb \<and> fst tb = PT_TraceBegin"
    and "\<forall>v\<in>{v1, v2, v3}. valid_packet v \<and> fst v = PT_VSyncEvent"
    and "data = hdr @ encode_stream (pre @ [tb] @ f0 @ [v1] @ f1 @ [v2] @ f2 @ [v3] @ f3)"
    and "o0 = length hdr + length (encode_stream (pre @ [tb]))"
    and "o1 = o0 + length (encode_stream (f0 @ [v1]))"
    and "o2 = o1 + length (encode_stream (f1 @ [v2]))"
    and "o3 = o2 + length (encode_stream (f2 @ [v3]))"
  shows "first_pass data 14 False [] = Inr [o0, o1, o2, o3] \<and>
         take (o3 - o2) (drop o2 data) = encode_stream (f2 @ [v3]) \<and>
         (\<exists>ls. dump_packets f2 = Inr ls \<and>
            main_frames data (Some 2)
              = Inr (ls @ [''  VSync'',
                           [CHR 0x0A] @ ''Total frames: 4, packets in frame: ''
                           @ str_int (int (length f2))], 0))"
proof -
  let ?ps = "pre @ [tb] @ f0 @ [v1] @ f1 @ [v2] @ f2 @ [v3] @ f3"
  have pl: "\<forall>p\<in>set pre. fst p \<noteq> PT_TraceBegin \<and> fst p \<noteq> PT_VSyncEvent"
       "\<forall>p\<in>set f0. fst p \<noteq> PT_TraceBegin \<and> fst p \<noteq> PT_VSyncEvent"
       "\<forall>p\<in>set f1. fst p \<noteq> PT_TraceBegin \<and> fst p \<noteq> PT_VSyncEvent"
       "\<forall>p\<in>set f2. fst p \<noteq> PT_TraceBegin \<and> fst p \<noteq> PT_VSyncEvent"
       "\<forall>p\<in>set f3. fst p \<noteq> PT_TraceBegin \<and> fst p \<noteq> PT_VSyncEvent"
    using assms(3) by auto
  have mk: "fst tb = PT_TraceBegin" "fst v1 = PT_VSyncEvent" "fst v2 = PT_VSyncEvent"
       "fst v3 = PT_VSyncEvent"
    using assms(4,5) by auto
  have vall: "\<forall>p\<in>set ?ps. valid_packet p" using assms(3,4,5) by auto
  have ph: "parse_header data = Inr 14"
    unfolding assms(6) using assms(1,2) by (rule parse_header_ok)
  \<comment> \<open>the first pass\<close>
  have "first_pass data (length hdr) False [] = Inr (index_of ?ps (length hdr) False [])"
    unfolding assms(6) using vall by (rule first_pass_encode_stream)
  moreover have "index_of ?ps (length hdr) False [] = [o0, o1, o2, o3]"
  proof -
    have "index_of ?ps (length hdr) False []
        = index_of (tb # f0 @ [v1] @ f1 @ [v2] @ f2 @ [v3] @ f3)
            (length hdr + length (encode_stream pre)) False []"
      using index_of_plain[OF pl(1)] by simp
    also have "\<dots> = index_of (f0 @ v1 # f1 @ [v2] @ f2 @ [v3] @ f3) o0 True [o0]"
      using mk(1) by (simp add: Let_def assms(7) encode_stream_append encode_stream_Cons
          encode_stream_Nil add.assoc)
    also have "\<dots> = index_of (v1 # f1 @ [v2] @ f2 @ [v3] @ f3)
            (o0 + length (encode_stream f0)) True [o0]"
      using index_of_plain[OF pl(2)] by simp
    also have "\<dots> = index_of (f1 @ v2 # f2 @ [v3] @ f3) o1 True [o0, o1]"
      using mk(2) by (simp add: Let_def assms(8) encode_stream_append encode_stream_Cons
          encode_stream_Nil add.assoc)
    also have "\<dots> = index_of (v2 # f2 @ [v3] @ f3) (o1 + length (encode_stream f1)) True [o0, o1]"
      using index_of_plain[OF pl(3)] by simp
    also have "\<dots> = index_of (f2 @ v3 # f3) o2 True [o0, o1, o2]"
      using mk(3) by (simp add: Let_def assms(9) encode_stream_append encode_stream_Cons
          encode_stream_Nil add.assoc)
    also have "\<dots> = index_of (v3 # f3) (o2 + length (encode_stream f2)) True [o0, o1, o2]"
      using index_of_plain[OF pl(4)] by simp
    also have "\<dots> = index_of f3 o3 True [o0, o1, o2, o3]"
      using mk(4) by (simp add: Let_def assms(10) encode_stream_append encode_stream_Cons
          encode_stream_Nil add.assoc)
    also have "\<dots> = [o0, o1, o2, o3]"
      using pl(5) by (rule index_of_plain_end)
    finally show ?thesis .
  qed
  ultimately have fp: "first_pass data 14 False [] = Inr [o0, o1, o2, o3]"
    using assms(1) by simp
  \<comment> \<open>the bytes between the offsets\<close>
  have "data = (hdr @ encode_stream (pre @ [tb]) @ encode_stream (f0 @ [v1])
                @ encode_stream (f1 @ [v2])) @ encode_stream (f2 @ [v3]) @ encode_stream f3"
    unfolding assms(6) by (simp add: encode_stream_append encode_stream_Cons encode_stream_Nil)
  moreover have "o2 = length (hdr @ encode_stream (pre @ [tb]) @ encode_stream (f0 @ [v1])
                @ encode_stream (f1 @ [v2]))"
    unfolding assms(7,8,9) by simp
  moreover have "o3 - o2 = length (encode_stream (f2 @ [v3]))" unfolding assms(10) by simp
  ultimately have bytes: "take (o3 - o2) (drop o2 data) = encode_stream (f2 @ [v3])"
    by simp
  \<comment> \<open>the second pass\<close>
  obtain ls where ls: "dump_packets f2 = Inr ls" using dump_packets_total by blast
  define s0 where "s0 = \<lparr>current_frame = - 1, dumping = False, pkt_count = 0, out = []\<rparr>"
  have fts: "frames_to_skip (Some 2) = 2" by (simp add: frames_to_skip_def)
  have "second_pass data (Some 2) (length hdr) s0 = scan_of (Some 2) ?ps s0"
    unfolding assms(6) using vall by (rule second_pass_encode_stream)
  also have "scan_of (Some 2) ?ps s0
      = scan_of (Some 2) (tb # f0 @ [v1] @ f1 @ [v2] @ f2 @ [v3] @ f3) s0"
    using scan_of_skip[OF pl(1), of s0 "Some 2"] by (simp add: s0_def)
  also have "\<dots> = scan_of (Some 2) (f0 @ v1 # f1 @ [v2] @ f2 @ [v3] @ f3) (s0\<lparr>current_frame := 0\<rparr>)"
    by (cases tb) (use mk(1) in \<open>simp add: frame_packet_trace_begin fts s0_def\<close>)
  also have "\<dots> = scan_of (Some 2) (v1 # f1 @ [v2] @ f2 @ [v3] @ f3) (s0\<lparr>current_frame := 0\<rparr>)"
    using scan_of_skip[OF pl(2), of "s0\<lparr>current_frame := 0\<rparr>" "Some 2"] by (simp add: s0_def)
  also have "\<dots> = scan_of (Some 2) (f1 @ v2 # f2 @ [v3] @ f3) (s0\<lparr>current_frame := 1\<rparr>)"
    by (cases v1) (use mk(2) in \<open>simp add: frame_packet_vsync fts s0_def\<close>)
  also have "\<dots> = scan_of (Some 2) (v2 # f2 @ [v3] @ f3) (s0\<lparr>current_frame := 1\<rparr>)"
    using scan_of_skip[OF pl(3), of "s0\<lparr>current_frame := 1\<rparr>" "Some 2"] by (simp add: s0_def)
  also have "\<dots> = scan_of (Some 2) (f2 @ v3 # f3) (s0\<lparr>current_frame := 2, dumping := True\<rparr>)"
    by (cases v2) (use mk(3) in \<open>simp add: frame_packet_vsync fts s0_def\<close>)
  also have "\<dots> = scan_of (Some 2) (v3 # f3)
        (s0\<lparr>current_frame := 2, dumping := True, pkt_count := int (length f2), out := ls\<rparr>)"
    using scan_of_emit[OF pl(4) _ _ ls, of "s0\<lparr>current_frame := 2, dumping := True\<rparr>" "Some 2"]
    by (simp add: s0_def fts)
  also have "\<dots> = Inr (s0\<lparr>current_frame := 3, dumping := True, pkt_count := int (length f2),
                          out := ls @ [''  VSync'']\<rparr>)"
    by (cases v3) (use mk(4) in \<open>simp add: frame_packet_vsync fts s0_def\<close>)
  finally have sp: "second_pass data (Some 2) 14 s0
      = Inr (s0\<lparr>current_frame := 3, dumping := True, pkt_count := int (length f2),
                out := ls @ [''  VSync'']\<rparr>)"
    using assms(1) by simp
  have four: "str_int 4 = ''4''" by code_simp
  have "main_frames data (Some 2)
      = Inr (ls @ [''  VSync'',
                   [CHR 0x0A] @ ''Total frames: 4, packets in frame: ''
                   @ str_int (int (length f2))], 0)"
    using ph fp sp by (simp add: main_frames_def s0_def four)
  with fp bytes ls show ?thesis by blast
qed

theorem frame_two_of_four_witness:
  "first_pass
     ([0x50, 0x53, 0x58, 0x47, 0x50, 0x55, 0x44, 0x55, 0x4D, 0x50, 0x76, 0x31, 0, 0]
      @ [0, 0, 0, 5] @ [1, 0, 0, 1, 0, 0, 0, 3] @ [0, 0, 0, 2]
      @ [1, 0, 0, 1, 1, 0, 0, 4] @ [0, 0, 0, 2]
      @ [1, 0, 0, 1, 2, 0, 0, 5] @ [0, 0, 0, 2]) 14 False [] = Inr [18, 30, 42, 54] \<and>
   main_frames
     ([0x50, 0x53, 0x58, 0x47, 0x50, 0x55, 0x44, 0x55, 0x4D, 0x50, 0x76, 0x31, 0, 0]
      @ [0, 0, 0, 5] @ [1, 0, 0, 1, 0, 0, 0, 3] @ [0, 0, 0, 2]
      @ [1, 0, 0, 1, 1, 0, 0, 4] @ [0, 0, 0, 2]
      @ [1, 0, 0, 1, 2, 0, 0, 5] @ [0, 0, 0, 2]) (Some 2)
     = Inr ([''  GP1 0x05 0x05000002'', ''  VSync'',
             [CHR 0x0A] @ ''Total frames: 4, packets in frame: 1''], 0)"
proof -
  let ?hdr = "[0x50, 0x53, 0x58, 0x47, 0x50, 0x55, 0x44, 0x55, 0x4D, 0x50, 0x76, 0x31, 0, 0] :: bytes"
  let ?data = "?hdr @ [0, 0, 0, 5] @ [1, 0, 0, 1, 0, 0, 0, 3] @ [0, 0, 0, 2]
      @ [1, 0, 0, 1, 1, 0, 0, 4] @ [0, 0, 0, 2]
      @ [1, 0, 0, 1, 2, 0, 0, 5] @ [0, 0, 0, 2]"
  let ?tb = "(5, []) :: packet" and ?vs = "(2, []) :: packet"
  let ?f0 = "[(1, [0, 0, 0, 3])] :: packet list"
  let ?f1 = "[(1, [1, 0, 0, 4])] :: packet list"
  let ?f2 = "[(1, [2, 0, 0, 5])] :: packet list"
  have a1: "length ?hdr = 14" by simp
  have a2: "take 10 ?hdr = map (of_nat \<circ> of_char) ''PSXGPUDUMP''" by simp
  have a3: "\<forall>p\<in>set ([] @ ?f0 @ ?f1 @ ?f2 @ []).
           valid_packet p \<and> fst p \<noteq> PT_TraceBegin \<and> fst p \<noteq> PT_VSyncEvent"
    by (simp add: valid_packet_def PT_defs)
  have a4: "valid_packet ?tb \<and> fst ?tb = PT_TraceBegin" by (simp add: valid_packet_def PT_defs)
  have a5: "\<forall>v\<in>{?vs, ?vs, ?vs}. valid_packet v \<and> fst v = PT_VSyncEvent"
    by (simp add: valid_packet_def PT_defs)
  have a6: "?data = ?hdr @ encode_stream ([] @ [?tb] @ ?f0 @ [?vs] @ ?f1 @ [?vs] @ ?f2 @ [?vs] @ [])"
    by (simp add: encode_stream_def encode_packet_def spec_encode_header_def pack_I_def)
  have a7: "18 = length ?hdr + length (encode_stream ([] @ [?tb]))"
    by (simp add: encode_stream_def encode_packet_def spec_encode_header_def)
  have a8: "30 = 18 + length (encode_stream (?f0 @ [?vs]))"
    by (simp add: encode_stream_def encode_packet_def spec_encode_header_def)
  have a9: "42 = 30 + length (encode_stream (?f1 @ [?vs]))"
    by (simp add: encode_stream_def encode_packet_def spec_encode_header_def)
  have a10: "54 = 42 + length (encode_stream (?f2 @ [?vs]))"
    by (simp add: encode_stream_def encode_packet_def spec_encode_header_def)
  have d: "dump_packets ?f2 = Inr [''  GP1 0x05 0x05000002'']" by code_simp
  have one: "str_int (int (length ?f2)) = ''1''" by code_simp
  from frame_two_of_four[OF a1 a2 a3 a4 a5 a6 a7 a8 a9 a10] d one
  show ?thesis by auto
qed

text \<open>
  Claim C3, as the code has it. The claim as stated fails in its last part: for the minimal
  capture below (header, TraceBegin, one GP0 packet with one flat triangle, VSync) frame
  mode reports 2 frames, not 1, since the frame index has an offset for the TraceBegin and
  one for the VSync.
\<close>

theorem minimal_capture_total_counterexample:
  "main_frames
     ([0x50, 0x53, 0x58, 0x47, 0x50, 0x55, 0x44, 0x55, 0x4D, 0x50, 0x76, 0x31, 0, 0]
      @ [0, 0, 0, 5]
      @ [4, 0, 0, 0, 0x1F, 0x7C, 0, 0x20, 10, 0, 20, 0, 0xF6, 0x07, 0x14, 0, 0x0A, 0, 0xEC, 0x07]
      @ [0, 0, 0, 2]) (Some 0)
   = Inr ([[CHR 0x0A] @ ''--- Frame 0 ---'',
           ''  GP0 TRI_FLAT v0=(10,20)#FF00FF v1=(-10,20)#FF00FF v2=(10,-20)#FF00FF'',
           ''  VSync'',
           [CHR 0x0A] @ ''Total frames: 2, packets in frame: 1''], 0) \<and>
   main_frames
     ([0x50, 0x53, 0x58, 0x47, 0x50, 0x55, 0x44, 0x55, 0x4D, 0x50, 0x76, 0x31, 0, 0]
      @ [0, 0, 0, 5]
      @ [4, 0, 0, 0, 0x1F, 0x7C, 0, 0x20, 10, 0, 20, 0, 0xF6, 0x07, 0x14, 0, 0x0A, 0, 0xEC, 0x07]
      @ [0, 0, 0, 2]) (Some 0)
   \<noteq> Inr ([[CHR 0x0A] @ ''--- Frame 0 ---'',
           ''  GP0 TRI_FLAT v0=(10,20)#FF00FF v1=(-10,20)#FF00FF v2=(10,-20)#FF00FF'',
           ''  VSync'',
           [CHR 0x0A] @ ''Total frames: 1, packets in frame: 1''], 0)"
  by code_simp

text \<open>
  Claim C3, amended. For every minimal capture made of a valid container header, one
  TraceBegin packet, one GP0 packet that holds a single flat-shaded triangle command
  (opcode 0x20-0x23 and three vertex words) and one VSync packet, frame mode for frame 0
  (selected by index or by default) prints the frame banner, exactly one TRI_FLAT
  operation whose three vertices carry the sign-extended 11-bit coordinates of the three
  vertex words and the colour of the command word, the VSync line, and then the totals:
  2 frames, 1 packet in the frame. The exit status is 0.
\<close>

theorem minimal_capture_frame_zero:
  assumes "length hdr = 14" "take 10 hdr = map (of_nat \<circ> of_char) ''PSXGPUDUMP''"
    and "0x20000000 \<le> c \<and> c < 0x24000000"
    and "\<forall>v\<in>{v0, v1, v2}. 0 \<le> v \<and> v < 2 ^ 32"
    and "data = hdr @ encode_stream
                  [(PT_TraceBegin, []),
                   (PT_GPUPort0Data, pack_I c @ pack_I v0 @ pack_I v1 @ pack_I v2),
                   (PT_VSyncEvent, [])]"
    and "frame_idx = Some 0 \<or> frame_idx = None"
    and "vert = (\<lambda>k v. fmt_vert (k, sign_extend_11 (v AND 0x7FF),
                                    sign_extend_11 (drop_bit 16 v AND 0x7FF), color5 c))"
  shows "main_frames data frame_idx
         = Inr ([[CHR 0x0A] @ ''--- Frame 0 ---'',
                 ''  GP0 TRI_FLAT '' @ vert 0 v0 @ '' '' @ vert 1 v1 @ '' '' @ vert 2 v2,
                 ''  VSync'',
                 [CHR 0x0A] @ ''Total frames: 2, packets in frame: 1''], 0)"
proof -
  let ?payload = "pack_I c @ pack_I v0 @ pack_I v1 @ pack_I v2"
  let ?tb = "(PT_TraceBegin, []) :: packet"
  let ?g = "(PT_GPUPort0Data, ?payload)"
  let ?vs = "(PT_VSyncEvent, []) :: packet"
  let ?line = "''  GP0 TRI_FLAT '' @ vert 0 v0 @ '' '' @ vert 1 v1 @ '' '' @ vert 2 v2"
  define cmd where "cmd = drop_bit 24 c AND 0xFF"
  have c: "0x20000000 \<le> c" "c < 0x24000000" using assms(3) by simp_all
  have cr: "0 \<le> c" "c < 2 ^ 32" using c by simp_all
  have vr: "0 \<le> v0" "v0 < 2 ^ 32" "0 \<le> v1" "v1 < 2 ^ 32" "0 \<le> v2" "v2 < 2 ^ 32"
    using assms(4) by simp_all
  have op: "0x20 \<le> cmd" "cmd \<le> 0x23" "drop_bit 24 c = cmd"
    unfolding cmd_def using flat_triangle_opcode[OF c] by simp_all
  have words: "unpack_words ?payload = [c, v0, v1, v2]"
    using unpack_words_pack_I[OF cr, of "pack_I v0 @ pack_I v1 @ pack_I v2"]
      unpack_words_pack_I[OF vr(1,2), of "pack_I v1 @ pack_I v2"]
      unpack_words_pack_I[OF vr(3,4), of "pack_I v2"]
      unpack_words_pack_I[OF vr(5,6), of "[]"]
    by simp
  have "gp0_step [c, v0, v1, v2] 0 = Inr ([(4, ?line)], length [c, v0, v1, v2])"
    using gp0_step_flat_triangle[OF cmd_def op(1,2), of v0 v1 v2] unfolding assms(7) by simp
  then have "parse_gp0_stream [c, v0, v1, v2] = Inr [(4, ?line)]"
    by (rule parse_gp0_stream_single) simp
  then have dump: "dump_packet PT_GPUPort0Data ?payload = Inr [?line]"
    using op by (simp add: dump_packet_def words Let_def)
  have valid: "\<forall>p\<in>set [?tb, ?g, ?vs]. valid_packet p"
    by (simp add: valid_packet_def PT_defs)
  have ph: "parse_header data = Inr 14"
    unfolding assms(5) using assms(1,2) by (rule parse_header_ok)
  have "first_pass data (length hdr) False [] = Inr (index_of [?tb, ?g, ?vs] (length hdr) False [])"
    unfolding assms(5) using valid by (rule first_pass_encode_stream)
  then have fp: "first_pass data 14 False [] = Inr [18, 42]"
    using assms(1) by (simp add: Let_def PT_defs length_encode_packet)
  define s0 where "s0 = \<lparr>current_frame = - 1, dumping = True, pkt_count = 0, out = []\<rparr>"
  have fts: "frames_to_skip frame_idx = 0" using assms(6) by (auto simp: frames_to_skip_def)
  have init: "(frame_idx = None \<or> frame_idx = Some 0) = True" using assms(6) by auto
  have zero: "str_int 0 = ''0''" by code_simp
  have "second_pass data frame_idx (length hdr) s0 = scan_of frame_idx [?tb, ?g, ?vs] s0"
    unfolding assms(5) using valid by (rule second_pass_encode_stream)
  also have "\<dots> = Inr (s0\<lparr>current_frame := 1, pkt_count := 1,
        out := [[CHR 0x0A] @ ''--- Frame 0 ---'', ?line, ''  VSync'']\<rparr>)"
  proof -
    define s1 where "s1 = s0\<lparr>current_frame := 0, out := [[CHR 0x0A] @ ''--- Frame 0 ---'']\<rparr>"
    define s2 where "s2 = s1\<lparr>pkt_count := 1, out := [[CHR 0x0A] @ ''--- Frame 0 ---'', ?line]\<rparr>"
    define s3 where "s3 = s2\<lparr>current_frame := 1,
        out := [[CHR 0x0A] @ ''--- Frame 0 ---'', ?line, ''  VSync'']\<rparr>"
    have 1: "frame_packet frame_idx PT_TraceBegin [] s0 = Inr (False, s1)"
      by (simp add: frame_packet_trace_begin fts s0_def s1_def zero)
    have 2: "frame_packet frame_idx PT_GPUPort0Data ?payload s1 = Inr (False, s2)"
      using dump by (simp add: frame_packet_def PT_defs fts s0_def s1_def s2_def)
    have 3: "frame_packet frame_idx PT_VSyncEvent [] s2 = Inr (frame_idx \<noteq> None, s3)"
      by (simp add: frame_packet_vsync fts s0_def s1_def s2_def s3_def Let_def)
    have "scan_of frame_idx [?tb, ?g, ?vs] s0 = Inr s3"
      using 1 2 3 by (cases "frame_idx = None") simp_all
    then show ?thesis by (simp add: s3_def s2_def s1_def s0_def)
  qed
  finally have sp: "second_pass data frame_idx 14 s0
      = Inr (s0\<lparr>current_frame := 1, pkt_count := 1,
        out := [[CHR 0x0A] @ ''--- Frame 0 ---'', ?line, ''  VSync'']\<rparr>)"
    using assms(1) by simp
  have two: "str_int 2 = ''2''" "str_int 1 = ''1''" by code_simp+
  show ?thesis
    using ph fp sp by (simp add: main_frames_def init s0_def two)
qed

theorem minimal_capture_frame_zero_witness:
  "main_frames
     ([0x50, 0x53, 0x58, 0x47, 0x50, 0x55, 0x44, 0x55, 0x4D, 0x50, 0x76, 0x31, 0, 0]
      @ [0, 0, 0, 5]
      @ [4, 0, 0, 0, 0xFF, 0xFF, 0xFF, 0x20, 0x20, 0, 0x10, 0, 0, 4, 0xFF, 7, 0, 0, 0, 0]
      @ [0, 0, 0, 2]) (Some 0)
   = Inr ([[CHR 0x0A] @ ''--- Frame 0 ---'',
           ''  GP0 TRI_FLAT v0=(32,16)#FFFFFF v1=(-1024,-1)#FFFFFF v2=(0,0)#FFFFFF'',
           ''  VSync'',
           [CHR 0x0A] @ ''Total frames: 2, packets in frame: 1''], 0)"
proof -
  let ?hdr = "[0x50, 0x53, 0x58, 0x47, 0x50, 0x55, 0x44, 0x55, 0x4D, 0x50, 0x76, 0x31, 0, 0] :: bytes"
  let ?data = "?hdr @ [0, 0, 0, 5]
      @ [4, 0, 0, 0, 0xFF, 0xFF, 0xFF, 0x20, 0x20, 0, 0x10, 0, 0, 4, 0xFF, 7, 0, 0, 0, 0]
      @ [0, 0, 0, 2]"
  let ?vert = "\<lambda>k v. fmt_vert (k, sign_extend_11 (v AND 0x7FF),
                                    sign_extend_11 (drop_bit 16 v AND 0x7FF), color5 0x20FFFFFF)"
  have a1: "length ?hdr = 14" by simp
  have a2: "take 10 ?hdr = map (of_nat \<circ> of_char) ''PSXGPUDUMP''" by simp
  have a3: "0x20000000 \<le> (0x20FFFFFF::int) \<and> (0x20FFFFFF::int) < 0x24000000" by simp
  have a4: "\<forall>v\<in>{0x00100020, 0x07FF0400, 0::int}. 0 \<le> v \<and> v < 2 ^ 32" by simp
  have a5: "?data = ?hdr @ encode_stream
                  [(PT_TraceBegin, []),
                   (PT_GPUPort0Data, pack_I 0x20FFFFFF @ pack_I 0x00100020 @ pack_I 0x07FF0400 @ pack_I 0),
                   (PT_VSyncEvent, [])]"
    by code_simp
  have a6: "Some (0::int) = Some 0 \<or> Some (0::int) = None" by simp
  have l: "''  GP0 TRI_FLAT '' @ ?vert 0 0x00100020 @ '' '' @ ?vert 1 0x07FF0400 @ '' '' @ ?vert 2 0
         = ''  GP0 TRI_FLAT v0=(32,16)#FFFFFF v1=(-1024,-1)#FFFFFF v2=(0,0)#FFFFFF''"
    by code_simp
  from minimal_capture_frame_zero[OF a1 a2 a3 a4 a5 a6 refl] show ?thesis
    unfolding l .
qed

end
